theory Spec2Isabelle
  imports Main
begin

section \<open>Strings\<close>

text \<open>
  The plugin works on JavaScript strings. A string is modelled as a list of code
  units, here the 8-bit \<^typ>\<open>char\<close>: the texts covered are those over the
  Latin-1 range. In that range the white space of \<^verbatim>\<open>String.prototype.trim\<close>
  and of the regular-expression class \<^verbatim>\<open>\s\<close> is TAB, LF, VT, FF, CR, SPACE
  and NBSP.
\<close>

definition is_space :: "char \<Rightarrow> bool" where
  "is_space c \<longleftrightarrow>
     c \<in> set [CHR 0x09, CHR 0x0A, CHR 0x0B, CHR 0x0C, CHR 0x0D, CHR 0x20, CHR 0xA0]"

text \<open>\<^verbatim>\<open>s.trim()\<close>\<close>

definition trim :: "string \<Rightarrow> string" where
  "trim s = rev (dropWhile is_space (rev (dropWhile is_space s)))"

text \<open>\<^verbatim>\<open>s.startsWith('#')\<close>\<close>

definition startsWith_hash :: "string \<Rightarrow> bool" where
  "startsWith_hash s = (case s of [] \<Rightarrow> False | c # _ \<Rightarrow> c = CHR ''#'')"

text \<open>
  \<^verbatim>\<open>s.split(sep)\<close> for a one-character separator: always at least one piece, the
  pieces are the maximal separator-free runs.
\<close>

fun split_on :: "char \<Rightarrow> string \<Rightarrow> string list" where
  "split_on sep [] = [[]]"
| "split_on sep (c # cs) =
     (if c = sep then [] # split_on sep cs
      else (case split_on sep cs of
              [] \<Rightarrow> [[c]]
            | piece # pieces \<Rightarrow> (c # piece) # pieces))"

text \<open>\<^verbatim>\<open>s.split('|')[0]\<close>: the text before the first separator.\<close>

definition before_pipe :: "string \<Rightarrow> string" where
  "before_pipe s = (case split_on (CHR ''|'') s of [] \<Rightarrow> [] | piece # _ \<Rightarrow> piece)"

text \<open>A literal prefix of a pattern: the rest of the input after it, if it is there.\<close>

fun literal :: "string \<Rightarrow> string \<Rightarrow> string option" where
  "literal [] s = Some s"
| "literal (p # ps) [] = None"
| "literal (p # ps) (c # cs) = (if p = c then literal ps cs else None)"

section \<open>The regular expressions of the plugin\<close>

text \<open>
  Every pattern of \<^verbatim>\<open>main.ts\<close> is a sequence of literals and greedy character-class
  runs, each run followed by a character outside its class. Backtracking into such a run
  can only expose a character of the class where one outside it is required, so the
  longest run is the only candidate and matching at a given position is deterministic.
\<close>

definition not_close :: "char \<Rightarrow> bool" where
  \<comment> \<open>\<^verbatim>\<open>[^\]]\<close>\<close>
  "not_close c \<longleftrightarrow> c \<noteq> CHR '']''"

definition link_char :: "char \<Rightarrow> bool" where
  \<comment> \<open>\<^verbatim>\<open>[^\]|]\<close>\<close>
  "link_char c \<longleftrightarrow> c \<noteq> CHR '']'' \<and> c \<noteq> CHR ''|''"

definition space_or_dash :: "char \<Rightarrow> bool" where
  \<comment> \<open>\<^verbatim>\<open>[\s-]\<close>\<close>
  "space_or_dash c \<longleftrightarrow> is_space c \<or> c = CHR ''-''"

text \<open>
  \<^verbatim>\<open>/\[\[([^\]]+)\]\]/\<close> tried at the start of the input: the captured group and the
  input after the match.
\<close>

definition plain_at :: "string \<Rightarrow> (string \<times> string) option" where
  "plain_at s =
     (case literal ''[['' s of
        None \<Rightarrow> None
      | Some r \<Rightarrow>
          (let linkText = takeWhile not_close r in
           if linkText = [] then None
           else (case literal '']]'' (dropWhile not_close r) of
                   None \<Rightarrow> None
                 | Some rest \<Rightarrow> Some (linkText, rest))))"

text \<open>
  \<^verbatim>\<open>/\[\[([^\]|]+)\|([^\]]+)\]\]/\<close> tried at the start of the input: the two captured
  groups and the input after the match.
\<close>

definition alias_at :: "string \<Rightarrow> (string \<times> string \<times> string) option" where
  "alias_at s =
     (case literal ''[['' s of
        None \<Rightarrow> None
      | Some r \<Rightarrow>
          (let link = takeWhile link_char r in
           if link = [] then None
           else (case literal ''|'' (dropWhile link_char r) of
                   None \<Rightarrow> None
                 | Some r' \<Rightarrow>
                     (let display = takeWhile not_close r' in
                      if display = [] then None
                      else (case literal '']]'' (dropWhile not_close r') of
                              None \<Rightarrow> None
                            | Some rest \<Rightarrow> Some (link, display, rest))))))"

text \<open>The template literal \<^verbatim>\<open>`[[${link}]]`\<close>.\<close>

definition bracketed :: "string \<Rightarrow> string" where
  "bracketed t = ''[['' @ t @ '']]''"

lemma literal_length: "literal p s = Some r \<Longrightarrow> length s = length p + length r"
  by (induction p s rule: literal.induct) (auto split: if_splits)

lemma literal_append: "literal p (p @ s) = Some s"
  by (induction p) auto

lemma literal_Some_iff: "literal p s = Some r \<longleftrightarrow> s = p @ r"
  by (induction p s rule: literal.induct) auto

lemma plain_at_Some_iff:
  "plain_at s = Some (t, rest) \<longleftrightarrow>
     (\<exists>r. s = ''[['' @ r \<and> t = takeWhile not_close r \<and> t \<noteq> [] \<and>
          dropWhile not_close r = '']]'' @ rest)"
  by (auto simp: plain_at_def Let_def literal_Some_iff split: option.splits)

lemma plain_at_shorter: "plain_at s = Some (t, rest) \<Longrightarrow> length rest < length s"
proof -
  assume "plain_at s = Some (t, rest)"
  then obtain r where s: "s = ''[['' @ r" and d: "dropWhile not_close r = '']]'' @ rest"
    by (auto simp: plain_at_Some_iff)
  have "length (dropWhile not_close r) \<le> length r"
    by (rule length_dropWhile_le)
  with d have "length rest < length r" by simp
  with s show ?thesis by simp
qed

lemma alias_at_Some_iff:
  "alias_at s = Some (link, display, rest) \<longleftrightarrow>
     (\<exists>r r'. s = ''[['' @ r \<and> link = takeWhile link_char r \<and> link \<noteq> [] \<and>
          dropWhile link_char r = ''|'' @ r' \<and> display = takeWhile not_close r' \<and>
          display \<noteq> [] \<and> dropWhile not_close r' = '']]'' @ rest)"
  by (auto simp: alias_at_def Let_def literal_Some_iff split: option.splits)

lemma alias_at_shorter:
  "alias_at s = Some (link, display, rest) \<Longrightarrow> length rest < length s"
proof -
  assume "alias_at s = Some (link, display, rest)"
  then obtain r r' where s: "s = ''[['' @ r" and d: "dropWhile link_char r = ''|'' @ r'"
    and d': "dropWhile not_close r' = '']]'' @ rest"
    by (auto simp: alias_at_Some_iff)
  have "length (dropWhile not_close r') \<le> length r'"
    by (rule length_dropWhile_le)
  with d' have "length rest < length r'" by simp
  moreover have "length (dropWhile link_char r) \<le> length r"
    by (rule length_dropWhile_le)
  with d have "length r' < length r" by simp
  ultimately show ?thesis using s by simp
qed

section \<open>The vault\<close>

text \<open>
  The plugin reaches the notes through the host's \<^verbatim>\<open>app.vault\<close> and
  \<^verbatim>\<open>app.metadataCache\<close>. Of a \<^verbatim>\<open>TFile\<close> it uses the three name fields. The
  vault is the list \<^verbatim>\<open>getMarkdownFiles()\<close> returns, the content stored under each
  path, and the paths on which \<^verbatim>\<open>read\<close> and \<^verbatim>\<open>modify\<close> reject;
  \<^verbatim>\<open>getAbstractFileByPath(p)\<close> is a \<^verbatim>\<open>TFile\<close> exactly when content is stored
  under \<open>p\<close>. The field \<open>writes\<close> logs every \<^verbatim>\<open>modify\<close> and \<^verbatim>\<open>create\<close> that
  went through.
\<close>

record TFile =
  path :: string
  basename :: string
  name :: string

datatype error = IOError

record vault =
  getMarkdownFiles :: "TFile list"
  stored :: "string \<rightharpoonup> string"
  read_rejects :: "string set"
  modify_rejects :: "string set"
  writes :: "(string \<times> string) list"

definition vault_read :: "vault \<Rightarrow> string \<Rightarrow> error + string" where
  "vault_read v p =
     (if p \<in> read_rejects v then Inl IOError
      else (case stored v p of None \<Rightarrow> Inl IOError | Some content \<Rightarrow> Inr content))"

definition vault_modify :: "vault \<Rightarrow> string \<Rightarrow> string \<Rightarrow> error + vault" where
  "vault_modify v p data =
     (if p \<in> modify_rejects v \<or> stored v p = None then Inl IOError
      else Inr (v\<lparr>stored := (stored v)(p \<mapsto> data), writes := writes v @ [(p, data)]\<rparr>))"

definition vault_create :: "vault \<Rightarrow> string \<Rightarrow> string \<Rightarrow> error + vault" where
  "vault_create v p data =
     (if p \<in> modify_rejects v \<or> stored v p \<noteq> None then Inl IOError
      else Inr (v\<lparr>stored := (stored v)(p \<mapsto> data), writes := writes v @ [(p, data)]\<rparr>))"

text \<open>
  \<^verbatim>\<open>metadataCache.getFirstLinkpathDest(linkpath, sourcePath)\<close>, the host's own link
  resolution: a parameter of everything that uses it.
\<close>

type_synonym resolver = "string \<Rightarrow> string \<Rightarrow> TFile option"

section \<open>The Rewriter\<close>

record settings =
  brokenLinksFile :: string
  deleteText :: bool

definition DEFAULT_SETTINGS :: settings where
  "DEFAULT_SETTINGS = \<lparr>brokenLinksFile = ''broken links output.md'', deleteText = False\<rparr>"

text \<open>
  \<^verbatim>\<open>text.replace(/\[\[([^\]|]+)\|([^\]]+)\]\]/g, callback)\<close>: the pattern is tried at
  every position from the left; where it matches, the callback's result is emitted and
  the search goes on after the match (what was emitted is not searched again); elsewhere
  the character is copied. The callback returns the display text or the empty string when
  \<^verbatim>\<open>`[[${link}]]`\<close> is in the set, and the match itself otherwise.
\<close>

function alias_pass :: "bool \<Rightarrow> string set \<Rightarrow> string \<Rightarrow> string" where
  "alias_pass del brokenLinks [] = []"
| "alias_pass del brokenLinks (c # cs) =
     (case alias_at (c # cs) of
        None \<Rightarrow> c # alias_pass del brokenLinks cs
      | Some (link, display, rest) \<Rightarrow>
          (if bracketed link \<in> brokenLinks then (if del then [] else display)
           else ''[['' @ link @ ''|'' @ display @ '']]'')
          @ alias_pass del brokenLinks rest)"
  by pat_completeness auto
termination
  by (relation "measure (\<lambda>(del, brokenLinks, s). length s)")
     (auto dest: alias_at_shorter)

text \<open>
  \<^verbatim>\<open>text.replace(/\[\[([^\]]+)\]\]/g, callback)\<close>: here the set is asked for the match
  itself, and a broken link is replaced by the captured text or the empty string.
\<close>

function plain_pass :: "bool \<Rightarrow> string set \<Rightarrow> string \<Rightarrow> string" where
  "plain_pass del brokenLinks [] = []"
| "plain_pass del brokenLinks (c # cs) =
     (case plain_at (c # cs) of
        None \<Rightarrow> c # plain_pass del brokenLinks cs
      | Some (linkText, rest) \<Rightarrow>
          (if bracketed linkText \<in> brokenLinks then (if del then [] else linkText)
           else bracketed linkText)
          @ plain_pass del brokenLinks rest)"
  by pat_completeness auto
termination
  by (relation "measure (\<lambda>(del, brokenLinks, s). length s)")
     (auto dest: plain_at_shorter)

definition cleanBrokenWikilinks :: "settings \<Rightarrow> string \<Rightarrow> string set \<Rightarrow> string" where
  "cleanBrokenWikilinks st text brokenLinks =
     plain_pass (deleteText st) brokenLinks (alias_pass (deleteText st) brokenLinks text)"

section \<open>The Broken-Link Registry\<close>

text \<open>
  \<^verbatim>\<open>listRegex = /^[\s-]*(\[\[[^\]]+\]\])/\<close>: the captured group and the rest of the
  line after the match.
\<close>

definition listRegex :: "string \<Rightarrow> (string \<times> string) option" where
  "listRegex line =
     (case plain_at (dropWhile space_or_dash line) of
        None \<Rightarrow> None
      | Some (linkText, rest) \<Rightarrow> Some (bracketed linkText, rest))"

text \<open>
  \<^verbatim>\<open>reportFormatRegex = /^[\s-]*(\[\[[^\]]+\]\])\s+in\s+\[\[/\<close>: the captured group.
\<close>

definition reportFormatRegex :: "string \<Rightarrow> string option" where
  "reportFormatRegex line =
     (case listRegex line of
        None \<Rightarrow> None
      | Some (key, r) \<Rightarrow>
          (if takeWhile is_space r = [] then None
           else (case literal ''in'' (dropWhile is_space r) of
                   None \<Rightarrow> None
                 | Some r' \<Rightarrow>
                     (if takeWhile is_space r' = [] then None
                      else (case literal ''[['' (dropWhile is_space r') of
                              None \<Rightarrow> None
                            | Some _ \<Rightarrow> Some key)))))"

text \<open>
  The body of the loop of \<^verbatim>\<open>loadBrokenLinks\<close> (lines 116 to 133): the key one line
  adds to the set, if any.
\<close>

definition line_key :: "string \<Rightarrow> string option" where
  "line_key line =
     (if startsWith_hash (trim line) \<or> length (trim line) = 0 then None
      else (case reportFormatRegex line of
              Some key \<Rightarrow> Some key
            | None \<Rightarrow>
                (case listRegex line of
                   Some (key, _) \<Rightarrow> Some key
                 | None \<Rightarrow> None)))"

text \<open>
  \<^verbatim>\<open>loadBrokenLinks\<close>, lines 98 to 136: the empty set (after a notice) when the vault
  has no file at \<^verbatim>\<open>settings.brokenLinksFile\<close>; otherwise the file is read, outside any
  \<^verbatim>\<open>try\<close>, split at line feeds, and the keys of its lines are collected.
\<close>

definition loadBrokenLinks :: "settings \<Rightarrow> vault \<Rightarrow> error + string set" where
  "loadBrokenLinks st v =
     (case stored v (brokenLinksFile st) of
        None \<Rightarrow> Inr {}
      | Some _ \<Rightarrow>
          (case vault_read v (brokenLinksFile st) of
             Inl e \<Rightarrow> Inl e
           | Inr content \<Rightarrow>
               Inr (set (List.map_filter line_key (split_on (CHR 0x0A) content)))))"

text \<open>
  The earlier revision of the loader, lines 661 to 697: no line is skipped; a line that
  fails \<^verbatim>\<open>listRegex\<close> gives its first \<^verbatim>\<open>[[...]]\<close> as a key unless the line
  contains \<^verbatim>\<open>' in '\<close>.
\<close>

fun first_plain :: "string \<Rightarrow> string option" where
  \<comment> \<open>\<^verbatim>\<open>line.match(/\[\[([^\]]+)\]\]/)\<close>: group 1 of the leftmost match\<close>
  "first_plain [] = None"
| "first_plain (c # cs) =
     (case plain_at (c # cs) of
        Some (linkText, _) \<Rightarrow> Some linkText
      | None \<Rightarrow> first_plain cs)"

fun includes_str :: "string \<Rightarrow> string \<Rightarrow> bool" where
  \<comment> \<open>\<^verbatim>\<open>s.includes(p)\<close>\<close>
  "includes_str [] p = (p = [])"
| "includes_str (c # cs) p = (literal p (c # cs) \<noteq> None \<or> includes_str cs p)"

definition line_key_legacy :: "string \<Rightarrow> string option" where
  "line_key_legacy line =
     (case listRegex line of
        Some (key, _) \<Rightarrow> Some key
      | None \<Rightarrow>
          (case first_plain line of
             None \<Rightarrow> None
           | Some linkText \<Rightarrow>
               (if \<not> includes_str line '' in '' then Some (bracketed linkText) else None)))"

definition loadBrokenLinks_legacy :: "settings \<Rightarrow> vault \<Rightarrow> error + string set" where
  "loadBrokenLinks_legacy st v =
     (case stored v (brokenLinksFile st) of
        None \<Rightarrow> Inr {}
      | Some _ \<Rightarrow>
          (case vault_read v (brokenLinksFile st) of
             Inl e \<Rightarrow> Inl e
           | Inr content \<Rightarrow>
               Inr (set (List.map_filter line_key_legacy (split_on (CHR 0x0A) content)))))"

section \<open>Cleaning files\<close>

text \<open>
  \<^verbatim>\<open>cleanFile\<close>, lines 160 to 174. Read, rewrite and write are inside one
  \<^verbatim>\<open>try\<close>; the \<^verbatim>\<open>catch\<close> logs and answers \<^verbatim>\<open>false\<close>. The result is the vault
  afterwards and the answer.
\<close>

definition cleanFile :: "settings \<Rightarrow> vault \<Rightarrow> TFile \<Rightarrow> string set \<Rightarrow> vault \<times> bool" where
  "cleanFile st v file brokenLinks =
     (case vault_read v (path file) of
        Inl e \<Rightarrow> (v, False)
      | Inr content \<Rightarrow>
          (let cleanedContent = cleanBrokenWikilinks st content brokenLinks in
           if content \<noteq> cleanedContent
           then (case vault_modify v (path file) cleanedContent of
                   Inl e \<Rightarrow> (v, False)
                 | Inr v' \<Rightarrow> (v', True))
           else (v, False)))"

text \<open>The loop of \<^verbatim>\<open>cleanAllFiles\<close>, lines 212 to 217, with its counter.\<close>

fun cleanAllFiles_loop ::
  "settings \<Rightarrow> string set \<Rightarrow> TFile list \<Rightarrow> vault \<times> nat \<Rightarrow> vault \<times> nat" where
  "cleanAllFiles_loop st brokenLinks [] (v, cleanedCount) = (v, cleanedCount)"
| "cleanAllFiles_loop st brokenLinks (file # files) (v, cleanedCount) =
     (case cleanFile st v file brokenLinks of
        (v', cleaned) \<Rightarrow>
          cleanAllFiles_loop st brokenLinks files
            (v', if cleaned then cleanedCount + 1 else cleanedCount))"

text \<open>
  \<^verbatim>\<open>cleanAllFiles\<close>, lines 200 to 220. The result is the vault afterwards and, unless
  the registry was empty, the two numbers of the closing notice: files cleaned and files
  in total. A failed read of the registry file rejects the whole call.
\<close>

definition cleanAllFiles :: "settings \<Rightarrow> vault \<Rightarrow> error + vault \<times> (nat \<times> nat) option" where
  "cleanAllFiles st v =
     (case loadBrokenLinks st v of
        Inl e \<Rightarrow> Inl e
      | Inr brokenLinks \<Rightarrow>
          (if brokenLinks = {} then Inr (v, None)
           else (let files = getMarkdownFiles v in
                 case cleanAllFiles_loop st brokenLinks files (v, 0) of
                   (v', cleanedCount) \<Rightarrow> Inr (v', Some (cleanedCount, length files)))))"

section \<open>Orphan files\<close>

text \<open>
  \<^verbatim>\<open>content.match(/\[\[([^\]]+)\]\]/g)\<close>: the matches from left to right, none
  overlapping (\<^verbatim>\<open>null\<close>, which the callers skip, is the empty list here).
\<close>

function plain_matches :: "string \<Rightarrow> string list" where
  "plain_matches [] = []"
| "plain_matches (c # cs) =
     (case plain_at (c # cs) of
        None \<Rightarrow> plain_matches cs
      | Some (linkText, rest) \<Rightarrow> bracketed linkText # plain_matches rest)"
  by pat_completeness auto
termination
  by (relation "measure length") (auto dest: plain_at_shorter)

text \<open>\<^verbatim>\<open>link.slice(2, -2)\<close>\<close>

definition slice_2_m2 :: "string \<Rightarrow> string" where
  "slice_2_m2 link = take (length link - 4) (drop 2 link)"

text \<open>The inner loop of \<^verbatim>\<open>findOrphanFiles\<close>, lines 236 to 246.\<close>

fun findOrphanFiles_links ::
  "resolver \<Rightarrow> TFile \<Rightarrow> string list \<Rightarrow> (string \<rightharpoonup> string list) \<Rightarrow> (string \<rightharpoonup> string list)"
  where
  "findOrphanFiles_links res file [] allLinks = allLinks"
| "findOrphanFiles_links res file (link # links) allLinks =
     (let linkText = before_pipe (slice_2_m2 link) in
      case res linkText (path file) of
        None \<Rightarrow> findOrphanFiles_links res file links allLinks
      | Some targetFile \<Rightarrow>
          findOrphanFiles_links res file links
            (allLinks(path targetFile \<mapsto>
               (case allLinks (path targetFile) of None \<Rightarrow> [] | Some ps \<Rightarrow> ps)
               @ [path file])))"

text \<open>The outer loop, lines 231 to 248; the read is outside any \<^verbatim>\<open>try\<close>.\<close>

fun findOrphanFiles_loop ::
  "resolver \<Rightarrow> vault \<Rightarrow> TFile list \<Rightarrow> (string \<rightharpoonup> string list) \<Rightarrow>
     error + (string \<rightharpoonup> string list)" where
  "findOrphanFiles_loop res v [] allLinks = Inr allLinks"
| "findOrphanFiles_loop res v (file # files) allLinks =
     (case vault_read v (path file) of
        Inl e \<Rightarrow> Inl e
      | Inr content \<Rightarrow>
          findOrphanFiles_loop res v files
            (findOrphanFiles_links res file (plain_matches content) allLinks))"

text \<open>
  \<^verbatim>\<open>findOrphanFiles\<close>, lines 226 to 263: the list \<^verbatim>\<open>orphanFiles\<close> handed to the
  modal (or announced as empty).
\<close>

definition findOrphanFiles :: "resolver \<Rightarrow> vault \<Rightarrow> error + TFile list" where
  "findOrphanFiles res v =
     (let files = getMarkdownFiles v in
      case findOrphanFiles_loop res v files Map.empty of
        Inl e \<Rightarrow> Inl e
      | Inr allLinks \<Rightarrow> Inr (filter (\<lambda>file. allLinks (path file) = None) files))"

section \<open>The scan\<close>

text \<open>
  \<^verbatim>\<open>brokenLinksMap\<close> is a \<^verbatim>\<open>Map\<close> iterated in insertion order when the report is
  written: an association list. This is lines 319 to 322, the key created on first
  encounter and the path appended.
\<close>

fun add_reference ::
  "string \<Rightarrow> string \<Rightarrow> (string \<times> string list) list \<Rightarrow> (string \<times> string list) list" where
  "add_reference brokenLink p [] = [(brokenLink, [p])]"
| "add_reference brokenLink p ((k, ps) # m) =
     (if k = brokenLink then (k, ps @ [p]) # m else (k, ps) # add_reference brokenLink p m)"

text \<open>\<^verbatim>\<open>link.slice(2, -2).split('|')[0].trim()\<close>, line 309.\<close>

definition scan_linkText :: "string \<Rightarrow> string" where
  "scan_linkText link = trim (before_pipe (slice_2_m2 link))"

definition existingFiles :: "TFile list \<Rightarrow> string set" where
  "existingFiles files = set (concat (map (\<lambda>file. [basename file, path file, name file]) files))"

text \<open>The inner loop of the scan, lines 307 to 324: the counter and the map.\<close>

fun scan_links ::
  "resolver \<Rightarrow> string set \<Rightarrow> TFile \<Rightarrow> string list \<Rightarrow>
     nat \<times> (string \<times> string list) list \<Rightarrow> nat \<times> (string \<times> string list) list" where
  "scan_links res existing file [] (totalLinksChecked, brokenLinksMap) =
     (totalLinksChecked, brokenLinksMap)"
| "scan_links res existing file (link # links) (totalLinksChecked, brokenLinksMap) =
     (let linkText = scan_linkText link in
      if res linkText (path file) = None \<and> linkText \<notin> existing \<and>
         linkText @ ''.md'' \<notin> existing
      then scan_links res existing file links
             (totalLinksChecked + 1,
              add_reference (bracketed linkText) (path file) brokenLinksMap)
      else scan_links res existing file links (totalLinksChecked + 1, brokenLinksMap))"

text \<open>The outer loop, lines 302 to 326.\<close>

fun scan_files ::
  "resolver \<Rightarrow> vault \<Rightarrow> string set \<Rightarrow> TFile list \<Rightarrow>
     nat \<times> (string \<times> string list) list \<Rightarrow> error + nat \<times> (string \<times> string list) list" where
  "scan_files res v existing [] acc = Inr acc"
| "scan_files res v existing (file # files) acc =
     (case vault_read v (path file) of
        Inl e \<Rightarrow> Inl e
      | Inr content \<Rightarrow>
          scan_files res v existing files
            (scan_links res existing file (plain_matches content) acc))"

text \<open>A number inside a template literal: its decimal digits.\<close>

function show_nat :: "nat \<Rightarrow> string" where
  "show_nat n =
     (if n < 10 then [''0123456789'' ! n]
      else show_nat (n div 10) @ [''0123456789'' ! (n mod 10)])"
  by pat_completeness auto
termination
  by (relation "measure id") auto

declare show_nat.simps [simp del]

text \<open>\<^verbatim>\<open>xs.join(sep)\<close>\<close>

fun join :: "string \<Rightarrow> string list \<Rightarrow> string" where
  "join sep [] = []"
| "join sep [x] = x"
| "join sep (x # y # ys) = x @ sep @ join sep (y # ys)"

text \<open>
  The report, lines 336 to 340; \<open>now\<close> is \<^verbatim>\<open>new Date().toLocaleString()\<close>.
\<close>

definition report_line :: "string \<times> string list \<Rightarrow> string" where
  "report_line entry =
     (case entry of (link, filesPaths) \<Rightarrow>
        ''- '' @ link @ '' in '' @ join '', '' (map bracketed filesPaths) @ [CHR 0x0A])"

definition report_content :: "string \<Rightarrow> nat \<Rightarrow> (string \<times> string list) list \<Rightarrow> string" where
  "report_content now totalLinksChecked brokenLinksMap =
     ''# Broken links report'' @ [CHR 0x0A, CHR 0x0A] @
     ''Generated: '' @ now @ [CHR 0x0A] @
     ''Total broken links: '' @ show_nat (length brokenLinksMap) @ [CHR 0x0A] @
     ''Total links checked: '' @ show_nat totalLinksChecked @ [CHR 0x0A, CHR 0x0A] @
     ''## Broken links:'' @ [CHR 0x0A, CHR 0x0A] @
     concat (map report_line brokenLinksMap)"

text \<open>
  \<^verbatim>\<open>scanAndGenerateBrokenLinks\<close>, lines 285 to 355: the vault afterwards. With no
  broken link nothing is written.
\<close>

definition scanAndGenerateBrokenLinks ::
  "resolver \<Rightarrow> string \<Rightarrow> settings \<Rightarrow> vault \<Rightarrow> error + vault" where
  "scanAndGenerateBrokenLinks res now st v =
     (let files = getMarkdownFiles v in
      case scan_files res v (existingFiles files) files (0, []) of
        Inl e \<Rightarrow> Inl e
      | Inr (totalLinksChecked, brokenLinksMap) \<Rightarrow>
          (if length brokenLinksMap = 0 then Inr v
           else (let content = report_content now totalLinksChecked brokenLinksMap;
                     fileName = brokenLinksFile st
                 in if stored v fileName \<noteq> None then vault_modify v fileName content
                    else vault_create v fileName content)))"

section \<open>Texts made of prose and links\<close>

text \<open>
  The texts that the properties of the two passes are stated for. They are made of
  pieces: prose, plain links \<^verbatim>\<open>[[t]]\<close> and alias links \<^verbatim>\<open>[[t|d]]\<close>. Prose, targets
  and display texts hold no \<^verbatim>\<open>[[\<close> and do not end in \<^verbatim>\<open>[\<close>, so that no pattern
  matches inside a piece or across the end of one; single brackets, as in a task box or
  a Markdown link, are prose. A target is not empty and holds no \<^verbatim>\<open>]\<close> and no
  \<^verbatim>\<open>|\<close>; a display text is not empty and holds no \<^verbatim>\<open>]\<close>: the patterns of
  \<^verbatim>\<open>cleanBrokenWikilinks\<close> ask for that.
\<close>

fun plain_prose :: "string \<Rightarrow> bool" where
  "plain_prose [] \<longleftrightarrow> True"
| "plain_prose [c] \<longleftrightarrow> c \<noteq> CHR ''[''"
| "plain_prose (c # d # s) \<longleftrightarrow> (c \<noteq> CHR ''['' \<or> d \<noteq> CHR ''['') \<and> plain_prose (d # s)"

datatype piece = Prose string | Link string | AliasLink string string

fun rawSpan :: "piece \<Rightarrow> string" where
  "rawSpan (Prose s) = s"
| "rawSpan (Link t) = bracketed t"
| "rawSpan (AliasLink t d) = bracketed (t @ CHR ''|'' # d)"

fun well_formed :: "piece \<Rightarrow> bool" where
  "well_formed (Prose s) \<longleftrightarrow> plain_prose s"
| "well_formed (Link t) \<longleftrightarrow>
     t \<noteq> [] \<and> CHR '']'' \<notin> set t \<and> CHR ''|'' \<notin> set t \<and> plain_prose t"
| "well_formed (AliasLink t d) \<longleftrightarrow>
     t \<noteq> [] \<and> CHR '']'' \<notin> set t \<and> CHR ''|'' \<notin> set t \<and> plain_prose t \<and>
     d \<noteq> [] \<and> CHR '']'' \<notin> set d \<and> plain_prose d"

definition render :: "piece list \<Rightarrow> string" where
  "render ps = concat (map rawSpan ps)"

text \<open>What each pass makes of a well-formed piece, as a piece again.\<close>

fun alias_rewrite :: "bool \<Rightarrow> string set \<Rightarrow> piece \<Rightarrow> piece" where
  "alias_rewrite del K (AliasLink t d) =
     (if bracketed t \<in> K then Prose (if del then [] else d) else AliasLink t d)"
| "alias_rewrite del K p = p"

fun plain_rewrite :: "bool \<Rightarrow> string set \<Rightarrow> piece \<Rightarrow> piece" where
  "plain_rewrite del K (Prose s) = Prose s"
| "plain_rewrite del K (Link t) =
     (if bracketed t \<in> K then Prose (if del then [] else t) else Link t)"
| "plain_rewrite del K (AliasLink t d) =
     (if bracketed (t @ CHR ''|'' # d) \<in> K then Prose (if del then [] else t @ CHR ''|'' # d)
      else AliasLink t d)"

text \<open>
  The matches of the first pass, as its callback receives them: the two groups of
  every match, from left to right.
\<close>

function alias_matches :: "string \<Rightarrow> (string \<times> string) list" where
  "alias_matches [] = []"
| "alias_matches (c # cs) =
     (case alias_at (c # cs) of
        None \<Rightarrow> alias_matches cs
      | Some (link, display, rest) \<Rightarrow> (link, display) # alias_matches rest)"
  by pat_completeness auto
termination
  by (relation "measure length") (auto dest: alias_at_shorter)

section \<open>Lists, runs and lines\<close>



lemma plain_at_linkText:
  "plain_at s = Some (t, rest) \<Longrightarrow> t \<noteq> [] \<and> CHR '']'' \<notin> set t"
  by (auto simp: plain_at_Some_iff not_close_def dest: set_takeWhileD)

lemma takeWhile_run:
  "\<forall>c\<in>set t. P c \<Longrightarrow> \<not> P x \<Longrightarrow> takeWhile P (t @ x # r) = t"
  by (induction t) auto

lemma dropWhile_run:
  "\<forall>c\<in>set t. P c \<Longrightarrow> \<not> P x \<Longrightarrow> dropWhile P (t @ x # r) = x # r"
  by (induction t) auto

lemma plain_at_bracketed:
  "t \<noteq> [] \<Longrightarrow> CHR '']'' \<notin> set t \<Longrightarrow> plain_at (bracketed t @ rest) = Some (t, rest)"
proof -
  assume t: "t \<noteq> []" "CHR '']'' \<notin> set t"
  then have all: "\<forall>c\<in>set t. not_close c"
    by (auto simp: not_close_def)
  have tw: "takeWhile not_close (t @ '']]'' @ rest) = t"
    using all by (simp add: takeWhile_run not_close_def)
  have dw: "dropWhile not_close (t @ '']]'' @ rest) = '']]'' @ rest"
    using all by (simp add: dropWhile_run not_close_def)
  show ?thesis
    using t tw dw by (simp add: plain_at_Some_iff bracketed_def)
qed

lemma plain_at_raw: "plain_at s = Some (t, rest) \<Longrightarrow> s = bracketed t @ rest"
proof -
  assume "plain_at s = Some (t, rest)"
  then obtain r where s: "s = ''[['' @ r" and t: "t = takeWhile not_close r"
    and d: "dropWhile not_close r = '']]'' @ rest"
    by (auto simp: plain_at_Some_iff)
  have "r = takeWhile not_close r @ dropWhile not_close r" by simp
  with t d have "r = t @ '']]'' @ rest" by simp
  with s show ?thesis by (simp add: bracketed_def)
qed

lemma listRegex_Some_iff:
  "listRegex line = Some (key, rest) \<longleftrightarrow>
     (\<exists>t. plain_at (dropWhile space_or_dash line) = Some (t, rest) \<and> key = bracketed t)"
  by (auto simp: listRegex_def split: option.splits)

lemma listRegex_shape:
  assumes "\<forall>c\<in>set pre. space_or_dash c" "t \<noteq> []" "CHR '']'' \<notin> set t"
  shows "listRegex (pre @ bracketed t @ rest) = Some (bracketed t, rest)"
proof -
  have "\<not> space_or_dash (CHR ''['')"
    by (simp add: space_or_dash_def is_space_def)
  then have "dropWhile space_or_dash (pre @ bracketed t @ rest) = bracketed t @ rest"
    using assms(1) by (simp add: dropWhile_append2 bracketed_def)
  then show ?thesis
    using assms by (simp add: listRegex_def plain_at_bracketed)
qed

lemma listRegex_has_shape:
  assumes "listRegex line = Some (key, rest)"
  shows "\<exists>pre t. line = pre @ bracketed t @ rest \<and> (\<forall>c\<in>set pre. space_or_dash c) \<and>
           t \<noteq> [] \<and> CHR '']'' \<notin> set t \<and> key = bracketed t"
proof -
  from assms obtain t where p: "plain_at (dropWhile space_or_dash line) = Some (t, rest)"
    and k: "key = bracketed t"
    by (auto simp: listRegex_Some_iff)
  have "line = takeWhile space_or_dash line @ dropWhile space_or_dash line" by simp
  with plain_at_raw [OF p]
  have "line = takeWhile space_or_dash line @ bracketed t @ rest" by simp
  moreover have "\<forall>c\<in>set (takeWhile space_or_dash line). space_or_dash c"
    by (auto dest: set_takeWhileD)
  ultimately show ?thesis
    using plain_at_linkText [OF p] k by blast
qed

lemma reportFormatRegex_listRegex:
  "reportFormatRegex line = Some key \<Longrightarrow> \<exists>rest. listRegex line = Some (key, rest)"
  by (auto simp: reportFormatRegex_def split: option.splits if_splits)

lemma line_key_eq:
  "line_key line =
     (if startsWith_hash (trim line) \<or> trim line = [] then None
      else map_option fst (listRegex line))"
  by (auto simp: line_key_def split: option.splits dest: reportFormatRegex_listRegex)

lemma set_map_filter: "set (List.map_filter f xs) = {y. \<exists>x\<in>set xs. f x = Some y}"
  by (induction xs) (auto simp: List.map_filter_simps split: option.splits)

lemma map_filter_app:
  "List.map_filter f (xs @ ys) = List.map_filter f xs @ List.map_filter f ys"
  by (simp add: List.map_filter_def)

lemma split_on_nonempty: "split_on sep s \<noteq> []"
  by (induction s) (auto split: list.splits)

lemma split_on_append:
  "split_on sep (a @ sep # b) = split_on sep a @ split_on sep b"
  by (induction a) (auto split: list.splits simp: split_on_nonempty)

lemma split_on_no_sep: "sep \<notin> set s \<Longrightarrow> split_on sep s = [s]"
  by (induction s) auto

lemma first_plain_shape:
  "first_plain s = Some t \<Longrightarrow> t \<noteq> [] \<and> CHR '']'' \<notin> set t"
  by (induction s) (auto split: option.splits dest: plain_at_linkText)

lemma line_key_shape:
  "line_key line = Some k \<Longrightarrow> \<exists>t. k = bracketed t \<and> t \<noteq> [] \<and> CHR '']'' \<notin> set t"
  using plain_at_linkText
  by (fastforce simp: line_key_eq listRegex_Some_iff split: if_splits)

lemma line_key_legacy_shape:
  "line_key_legacy line = Some k \<Longrightarrow>
     \<exists>t. k = bracketed t \<and> t \<noteq> [] \<and> CHR '']'' \<notin> set t"
  using plain_at_linkText first_plain_shape
  by (fastforce simp: line_key_legacy_def listRegex_Some_iff split: option.splits if_splits)


lemma trim_head:
  assumes "dropWhile is_space s = x # xs"
  shows "\<exists>ys. trim s = x # ys"
proof -
  have nx: "\<not> is_space x"
    using assms hd_dropWhile [of is_space s] by auto
  have "\<exists>zs. dropWhile is_space (rev xs @ [x]) = zs @ [x]"
    using nx by (simp add: dropWhile_append)
  then obtain zs where "dropWhile is_space (rev (x # xs)) = zs @ [x]"
    by auto
  then show ?thesis
    using assms by (simp add: trim_def)
qed

lemma dropWhile_space_shape:
  assumes "\<forall>c\<in>set pre. space_or_dash c"
  shows "\<exists>x xs. dropWhile is_space (pre @ CHR ''['' # r) = x # xs \<and>
           (x = CHR ''-'' \<or> x = CHR ''['')"
  using assms
proof (induction pre)
  case Nil
  then show ?case by (simp add: is_space_def)
next
  case (Cons c pre)
  then show ?case by (auto simp: space_or_dash_def)
qed

lemma shaped_not_skipped:
  assumes "\<forall>c\<in>set pre. space_or_dash c"
  shows "trim (pre @ bracketed t @ rest) \<noteq> [] \<and>
         \<not> startsWith_hash (trim (pre @ bracketed t @ rest))"
proof -
  obtain x xs where d: "dropWhile is_space (pre @ bracketed t @ rest) = x # xs"
    and x: "x = CHR ''-'' \<or> x = CHR ''[''"
    using dropWhile_space_shape [OF assms, of "CHR ''['' # t @ '']]'' @ rest"]
    by (auto simp: bracketed_def)
  from trim_head [OF d] obtain ys where "trim (pre @ bracketed t @ rest) = x # ys" ..
  with x show ?thesis by (auto simp: startsWith_hash_def)
qed

lemma line_key_shape_Some:
  assumes "\<forall>c\<in>set pre. space_or_dash c" "t \<noteq> []" "CHR '']'' \<notin> set t"
  shows "line_key (pre @ bracketed t @ rest) = Some (bracketed t)"
  using shaped_not_skipped [OF assms(1), of t rest] listRegex_shape [OF assms, of rest]
  by (simp add: line_key_eq)

lemma line_key_legacy_shape_Some:
  assumes "\<forall>c\<in>set pre. space_or_dash c" "t \<noteq> []" "CHR '']'' \<notin> set t"
  shows "line_key_legacy (pre @ bracketed t @ rest) = Some (bracketed t)"
  using listRegex_shape [OF assms, of rest]
  by (simp add: line_key_legacy_def)

lemma startsWith_hash_trim: "startsWith_hash l \<Longrightarrow> startsWith_hash (trim l)"
proof -
  assume "startsWith_hash l"
  then obtain r where l: "l = CHR ''#'' # r"
    by (auto simp: startsWith_hash_def split: list.splits)
  then have "dropWhile is_space l = CHR ''#'' # r"
    by (simp add: is_space_def)
  from trim_head [OF this] show ?thesis
    by (auto simp: startsWith_hash_def)
qed


lemma loadBrokenLinks_read:
  assumes "vault_read v (brokenLinksFile st) = Inr content"
  shows "loadBrokenLinks st v = Inr (set (List.map_filter line_key (split_on (CHR 0x0A) content)))"
    and "loadBrokenLinks_legacy st v =
           Inr (set (List.map_filter line_key_legacy (split_on (CHR 0x0A) content)))"
  using assms
  by (auto simp: loadBrokenLinks_def loadBrokenLinks_legacy_def vault_read_def
      split: option.splits if_splits)

lemma loadBrokenLinks_keys:
  assumes "loadBrokenLinks st v = Inr K" "k \<in> K"
  shows "\<exists>content line. vault_read v (brokenLinksFile st) = Inr content \<and>
           line \<in> set (split_on (CHR 0x0A) content) \<and> line_key line = Some k"
  using assms
  by (auto simp: loadBrokenLinks_def set_map_filter split: option.splits sum.splits)

lemma loadBrokenLinks_legacy_keys:
  assumes "loadBrokenLinks_legacy st v = Inr K" "k \<in> K"
  shows "\<exists>content line. vault_read v (brokenLinksFile st) = Inr content \<and>
           line \<in> set (split_on (CHR 0x0A) content) \<and> line_key_legacy line = Some k"
  using assms
  by (auto simp: loadBrokenLinks_legacy_def set_map_filter split: option.splits sum.splits)

lemmas loader_eval = loadBrokenLinks_def loadBrokenLinks_legacy_def vault_read_def
  List.map_filter_def line_key_def line_key_legacy_def trim_def is_space_def
  startsWith_hash_def reportFormatRegex_def listRegex_def plain_at_def space_or_dash_def
  not_close_def bracketed_def DEFAULT_SETTINGS_def

section \<open>The registry loader: claims C2, C6 and C10\<close>

text \<open>
  C2. A line of the list-item shape, which a report line is, gives exactly one key to
  the registry, its first bracketed expression, whatever follows on the line; both
  revisions of the loader agree on this. For the report line
  \<^verbatim>\<open>- [[Foo]] in [[Bar.md]], [[Baz.md]]\<close> the key is \<^verbatim>\<open>[[Foo]]\<close>, and neither
  \<^verbatim>\<open>[[Bar.md]]\<close> nor \<^verbatim>\<open>[[Baz.md]]\<close> is loaded.
\<close>

theorem first_bracket_is_the_key:
  assumes "vault_read v (brokenLinksFile st) = Inr content"
    and "split_on (CHR 0x0A) content = earlier @ [pre @ bracketed t @ rest] @ later"
    and "\<forall>c\<in>set pre. space_or_dash c" and "t \<noteq> []" and "CHR '']'' \<notin> set t"
  shows "loadBrokenLinks st v =
           Inr (set (List.map_filter line_key earlier) \<union> {bracketed t} \<union>
                set (List.map_filter line_key later)) \<and>
         loadBrokenLinks_legacy st v =
           Inr (set (List.map_filter line_key_legacy earlier) \<union> {bracketed t} \<union>
                set (List.map_filter line_key_legacy later))"
  using assms(2) loadBrokenLinks_read [OF assms(1)]
    line_key_shape_Some [OF assms(3-5), of rest]
    line_key_legacy_shape_Some [OF assms(3-5), of rest]
  by (simp add: map_filter_app List.map_filter_simps)

theorem first_bracket_is_the_key_witness:
  "vault_read
     \<lparr>getMarkdownFiles = [],
      stored = [''broken links output.md'' \<mapsto>
                  ''# Broken links report\<newline>- [[Foo]] in [[Bar.md]], [[Baz.md]]''],
      read_rejects = {}, modify_rejects = {}, writes = []\<rparr>
     (brokenLinksFile DEFAULT_SETTINGS) =
     Inr ''# Broken links report\<newline>- [[Foo]] in [[Bar.md]], [[Baz.md]]''
   \<and> split_on (CHR 0x0A) ''# Broken links report\<newline>- [[Foo]] in [[Bar.md]], [[Baz.md]]'' =
     [''# Broken links report''] @
     [''- '' @ bracketed ''Foo'' @ '' in [[Bar.md]], [[Baz.md]]''] @ []
   \<and> list_all space_or_dash ''- '' \<and> ''Foo'' \<noteq> [] \<and> CHR '']'' \<notin> set ''Foo''
   \<and> loadBrokenLinks DEFAULT_SETTINGS
        \<lparr>getMarkdownFiles = [],
         stored = [''broken links output.md'' \<mapsto>
                     ''# Broken links report\<newline>- [[Foo]] in [[Bar.md]], [[Baz.md]]''],
         read_rejects = {}, modify_rejects = {}, writes = []\<rparr>
       = Inr {''[[Foo]]''}
   \<and> loadBrokenLinks_legacy DEFAULT_SETTINGS
        \<lparr>getMarkdownFiles = [],
         stored = [''broken links output.md'' \<mapsto>
                     ''# Broken links report\<newline>- [[Foo]] in [[Bar.md]], [[Baz.md]]''],
         read_rejects = {}, modify_rejects = {}, writes = []\<rparr>
       = Inr {''[[Foo]]''}
   \<and> ''[[Bar.md]]'' \<notin> {''[[Foo]]''} \<and> ''[[Baz.md]]'' \<notin> {''[[Foo]]''}"
proof -
  let ?c = "''# Broken links report\<newline>- [[Foo]] in [[Bar.md]], [[Baz.md]]''"
  let ?v = "\<lparr>getMarkdownFiles = [], stored = [''broken links output.md'' \<mapsto> ?c],
             read_rejects = {}, modify_rejects = {}, writes = []\<rparr>"
  have h0: "vault_read ?v (brokenLinksFile DEFAULT_SETTINGS) = Inr ?c"
    by (simp add: vault_read_def DEFAULT_SETTINGS_def)
  have h1: "split_on (CHR 0x0A) ?c =
     [''# Broken links report''] @
     [''- '' @ bracketed ''Foo'' @ '' in [[Bar.md]], [[Baz.md]]''] @ []"
    by (simp add: bracketed_def)
  have h2: "\<forall>c\<in>set ''- ''. space_or_dash c"
    by (simp add: space_or_dash_def is_space_def)
  have h3: "''Foo'' \<noteq> []" "CHR '']'' \<notin> set ''Foo''"
    by simp_all
  have a: "set (List.map_filter line_key [''# Broken links report'']) = {}"
    by (simp add: loader_eval)
  have b: "set (List.map_filter line_key_legacy [''# Broken links report'']) = {}"
    by (simp add: loader_eval)
  show ?thesis
    using first_bracket_is_the_key [OF h0 h1 h2 h3] h0 h1 h2 a b
    by (simp add: bracketed_def List.map_filter_simps list_all_iff)
qed

text \<open>
  C10. Every key either revision of the loader returns is \<^verbatim>\<open>[[s]]\<close> for a non-empty
  \<open>s\<close> without \<^verbatim>\<open>]\<close>, whatever the registry document holds.
\<close>

theorem registry_keys_are_bracketed:
  assumes "loadBrokenLinks st v = Inr K \<or> loadBrokenLinks_legacy st v = Inr K"
    and "k \<in> K"
  shows "\<exists>s. k = ''[['' @ s @ '']]'' \<and> s \<noteq> [] \<and> CHR '']'' \<notin> set s"
proof -
  have "\<exists>line. line_key line = Some k \<or> line_key_legacy line = Some k"
    using assms loadBrokenLinks_keys loadBrokenLinks_legacy_keys by blast
  then show ?thesis
    using line_key_shape line_key_legacy_shape by (auto simp: bracketed_def)
qed

theorem registry_keys_are_bracketed_witness:
  "(loadBrokenLinks DEFAULT_SETTINGS
      \<lparr>getMarkdownFiles = [],
       stored = [''broken links output.md'' \<mapsto> ''- [[Old Page]]''],
       read_rejects = {}, modify_rejects = {}, writes = []\<rparr> = Inr {''[[Old Page]]''}
    \<or> loadBrokenLinks_legacy DEFAULT_SETTINGS
      \<lparr>getMarkdownFiles = [],
       stored = [''broken links output.md'' \<mapsto> ''- [[Old Page]]''],
       read_rejects = {}, modify_rejects = {}, writes = []\<rparr> = Inr {''[[Old Page]]''})
   \<and> ''[[Old Page]]'' \<in> {''[[Old Page]]''}
   \<and> (\<exists>s. ''[[Old Page]]'' = ''[['' @ s @ '']]'' \<and> s \<noteq> [] \<and> CHR '']'' \<notin> set s)"
proof -
  let ?v = "\<lparr>getMarkdownFiles = [],
       stored = [''broken links output.md'' \<mapsto> ''- [[Old Page]]''],
       read_rejects = {}, modify_rejects = {}, writes = []\<rparr>"
  have h: "loadBrokenLinks DEFAULT_SETTINGS ?v = Inr {''[[Old Page]]''}
      \<or> loadBrokenLinks_legacy DEFAULT_SETTINGS ?v = Inr {''[[Old Page]]''}"
    by (simp add: loader_eval)
  have m: "''[[Old Page]]'' \<in> {''[[Old Page]]''}"
    by simp
  from registry_keys_are_bracketed [OF h m] h m show ?thesis by blast
qed


lemma listRegex_iff_shape:
  "(\<exists>rest. listRegex line = Some (k, rest)) \<longleftrightarrow>
     (\<exists>pre t rest. line = pre @ bracketed t @ rest \<and> (\<forall>c\<in>set pre. space_or_dash c) \<and>
        t \<noteq> [] \<and> CHR '']'' \<notin> set t \<and> k = bracketed t)"
proof
  assume "\<exists>rest. listRegex line = Some (k, rest)"
  then obtain rest where "listRegex line = Some (k, rest)" ..
  from listRegex_has_shape [OF this]
  show "\<exists>pre t rest. line = pre @ bracketed t @ rest \<and> (\<forall>c\<in>set pre. space_or_dash c) \<and>
        t \<noteq> [] \<and> CHR '']'' \<notin> set t \<and> k = bracketed t"
    by blast
next
  assume "\<exists>pre t rest. line = pre @ bracketed t @ rest \<and> (\<forall>c\<in>set pre. space_or_dash c) \<and>
        t \<noteq> [] \<and> CHR '']'' \<notin> set t \<and> k = bracketed t"
  then show "\<exists>rest. listRegex line = Some (k, rest)"
    using listRegex_shape by blast
qed

lemma line_key_iff:
  "line_key line = Some k \<longleftrightarrow>
     trim line \<noteq> [] \<and> \<not> startsWith_hash line \<and>
     (\<exists>pre t rest. line = pre @ bracketed t @ rest \<and> (\<forall>c\<in>set pre. space_or_dash c) \<and>
        t \<noteq> [] \<and> CHR '']'' \<notin> set t \<and> k = bracketed t)"
proof
  assume a: "line_key line = Some k"
  then have t: "trim line \<noteq> []" and h: "\<not> startsWith_hash (trim line)"
    and l: "\<exists>rest. listRegex line = Some (k, rest)"
    by (auto simp: line_key_eq split: if_splits)
  from h have nh: "\<not> startsWith_hash line"
    using startsWith_hash_trim by blast
  from t nh l show "trim line \<noteq> [] \<and> \<not> startsWith_hash line \<and>
     (\<exists>pre t rest. line = pre @ bracketed t @ rest \<and> (\<forall>c\<in>set pre. space_or_dash c) \<and>
        t \<noteq> [] \<and> CHR '']'' \<notin> set t \<and> k = bracketed t)"
    by (simp add: listRegex_iff_shape)
next
  assume "trim line \<noteq> [] \<and> \<not> startsWith_hash line \<and>
     (\<exists>pre t rest. line = pre @ bracketed t @ rest \<and> (\<forall>c\<in>set pre. space_or_dash c) \<and>
        t \<noteq> [] \<and> CHR '']'' \<notin> set t \<and> k = bracketed t)"
  then show "line_key line = Some k"
    using line_key_shape_Some by blast
qed

lemma line_key_legacy_iff:
  "line_key_legacy line = Some k \<longleftrightarrow>
     (\<exists>rest. listRegex line = Some (k, rest)) \<or>
     (listRegex line = None \<and> \<not> includes_str line '' in '' \<and>
      (\<exists>t. first_plain line = Some t \<and> k = bracketed t))"
  by (auto simp: line_key_legacy_def split: option.splits)

lemma listRegex_None_iff:
  "listRegex line = None \<longleftrightarrow>
     \<not> (\<exists>pre t rest. line = pre @ bracketed t @ rest \<and> (\<forall>c\<in>set pre. space_or_dash c) \<and>
          t \<noteq> [] \<and> CHR '']'' \<notin> set t)"
proof -
  have "listRegex line = None \<longleftrightarrow> \<not> (\<exists>k rest. listRegex line = Some (k, rest))"
    by (cases "listRegex line") auto
  also have "\<dots> \<longleftrightarrow> \<not> (\<exists>k pre t rest. line = pre @ bracketed t @ rest \<and>
      (\<forall>c\<in>set pre. space_or_dash c) \<and> t \<noteq> [] \<and> CHR '']'' \<notin> set t \<and> k = bracketed t)"
    using listRegex_iff_shape [of line] by blast
  finally show ?thesis by blast
qed

text \<open>
  C6, as the claim states it, fails for the loader of lines 661 to 697: a heading line
  and a line that is no list item both give a key.
\<close>

theorem legacy_loader_discards_counterexample:
  "startsWith_hash ''# [[Heading]]'' \<and> listRegex ''see [[Note]] here'' = None \<and>
   loadBrokenLinks_legacy DEFAULT_SETTINGS
     \<lparr>getMarkdownFiles = [],
      stored = [''broken links output.md'' \<mapsto> ''# [[Heading]]\<newline>see [[Note]] here''],
      read_rejects = {}, modify_rejects = {}, writes = []\<rparr>
   = Inr {''[[Heading]]'', ''[[Note]]''}"
  by (simp add: loader_eval)

text \<open>
  C6, amended. The loader of lines 98 to 136 works line by line and takes a key from a
  line only if the line is not blank, does not begin with \<^verbatim>\<open>#\<close> and has the list-item
  shape (white space and dashes, then at once a bracketed link): any other line is
  discarded. The loader of lines 661 to 697 also works line by line, but skips nothing:
  a line of the list-item shape gives its key, and any other line gives its first
  bracketed link unless the line contains \<^verbatim>\<open>' in '\<close>.
\<close>

theorem loader_discards_unless_list_item:
  assumes "vault_read v (brokenLinksFile st) = Inr content"
  shows "loadBrokenLinks st v =
           Inr {k. \<exists>line\<in>set (split_on (CHR 0x0A) content).
                  trim line \<noteq> [] \<and> \<not> startsWith_hash line \<and>
                  (\<exists>pre t rest. line = pre @ bracketed t @ rest \<and>
                     (\<forall>c\<in>set pre. space_or_dash c) \<and> t \<noteq> [] \<and> CHR '']'' \<notin> set t \<and>
                     k = bracketed t)} \<and>
         loadBrokenLinks_legacy st v =
           Inr {k. \<exists>line\<in>set (split_on (CHR 0x0A) content).
                  (\<exists>pre t rest. line = pre @ bracketed t @ rest \<and>
                     (\<forall>c\<in>set pre. space_or_dash c) \<and> t \<noteq> [] \<and> CHR '']'' \<notin> set t \<and>
                     k = bracketed t) \<or>
                  (\<not> (\<exists>pre t rest. line = pre @ bracketed t @ rest \<and>
                        (\<forall>c\<in>set pre. space_or_dash c) \<and> t \<noteq> [] \<and> CHR '']'' \<notin> set t) \<and>
                   \<not> includes_str line '' in '' \<and>
                   (\<exists>t. first_plain line = Some t \<and> k = bracketed t))}"
  unfolding loadBrokenLinks_read [OF assms] set_map_filter line_key_iff
    line_key_legacy_iff listRegex_iff_shape listRegex_None_iff
  by simp


theorem loader_discards_unless_list_item_witness:
  "vault_read
     \<lparr>getMarkdownFiles = [],
      stored = [''broken links output.md'' \<mapsto>
                  ''# [[H]]\<newline>\<newline>- [[X]]\<newline>see [[Y]]\<newline>a [[Z]] in [[f]]''],
      read_rejects = {}, modify_rejects = {}, writes = []\<rparr>
     (brokenLinksFile DEFAULT_SETTINGS) =
     Inr ''# [[H]]\<newline>\<newline>- [[X]]\<newline>see [[Y]]\<newline>a [[Z]] in [[f]]''
   \<and> {k. \<exists>line\<in>set (split_on (CHR 0x0A)
                ''# [[H]]\<newline>\<newline>- [[X]]\<newline>see [[Y]]\<newline>a [[Z]] in [[f]]'').
            trim line \<noteq> [] \<and> \<not> startsWith_hash line \<and>
            (\<exists>pre t rest. line = pre @ bracketed t @ rest \<and>
               (\<forall>c\<in>set pre. space_or_dash c) \<and> t \<noteq> [] \<and> CHR '']'' \<notin> set t \<and>
               k = bracketed t)} = {''[[X]]''}
   \<and> loadBrokenLinks_legacy DEFAULT_SETTINGS
     \<lparr>getMarkdownFiles = [],
      stored = [''broken links output.md'' \<mapsto>
                  ''# [[H]]\<newline>\<newline>- [[X]]\<newline>see [[Y]]\<newline>a [[Z]] in [[f]]''],
      read_rejects = {}, modify_rejects = {}, writes = []\<rparr>
     = Inr {''[[H]]'', ''[[X]]'', ''[[Y]]''}"
proof -
  let ?c = "''# [[H]]\<newline>\<newline>- [[X]]\<newline>see [[Y]]\<newline>a [[Z]] in [[f]]''"
  let ?v = "\<lparr>getMarkdownFiles = [], stored = [''broken links output.md'' \<mapsto> ?c],
             read_rejects = {}, modify_rejects = {}, writes = []\<rparr>"
  have h0: "vault_read ?v (brokenLinksFile DEFAULT_SETTINGS) = Inr ?c"
    by (simp add: vault_read_def DEFAULT_SETTINGS_def)
  have a: "loadBrokenLinks DEFAULT_SETTINGS ?v = Inr {''[[X]]''}"
    by (simp add: loader_eval)
  have b: "loadBrokenLinks_legacy DEFAULT_SETTINGS ?v = Inr {''[[H]]'', ''[[X]]'', ''[[Y]]''}"
    by (simp add: loader_eval insert_commute)
  from loader_discards_unless_list_item [OF h0] a
  have "{k. \<exists>line\<in>set (split_on (CHR 0x0A) ?c).
            trim line \<noteq> [] \<and> \<not> startsWith_hash line \<and>
            (\<exists>pre t rest. line = pre @ bracketed t @ rest \<and>
               (\<forall>c\<in>set pre. space_or_dash c) \<and> t \<noteq> [] \<and> CHR '']'' \<notin> set t \<and>
               k = bracketed t)} = {''[[X]]''}"
    by simp
  with h0 b show ?thesis by blast
qed


section \<open>Cleaning the vault: claim C8\<close>

lemma cleanFile_failure:
  assumes "vault_read v (path file) = Inl e \<or> path file \<in> modify_rejects v"
  shows "cleanFile st v file brokenLinks = (v, False)"
  using assms
  by (auto simp: cleanFile_def vault_modify_def Let_def split: sum.splits)

lemma cleanFile_effect:
  assumes "cleanFile st v file brokenLinks = (v', cleaned)"
  shows "getMarkdownFiles v' = getMarkdownFiles v \<and> read_rejects v' = read_rejects v \<and>
         modify_rejects v' = modify_rejects v \<and>
         (\<forall>p. p \<noteq> path file \<longrightarrow> stored v' p = stored v p) \<and>
         stored v' (path file) =
           (if (\<exists>e. vault_read v (path file) = Inl e) \<or> path file \<in> modify_rejects v
            then stored v (path file)
            else map_option (\<lambda>content. cleanBrokenWikilinks st content brokenLinks)
                   (stored v (path file)))"
  using assms
  by (auto simp: cleanFile_def vault_modify_def vault_read_def Let_def
      split: sum.splits if_splits option.splits)

lemma vault_read_cong:
  "read_rejects v' = read_rejects v \<Longrightarrow> stored v' p = stored v p \<Longrightarrow>
   vault_read v' p = vault_read v p"
  by (simp add: vault_read_def)

lemma cleanAllFiles_loop_effect:
  assumes "cleanAllFiles_loop st brokenLinks files (v, n) = (v', n')"
    and "distinct (map path files)"
  shows "read_rejects v' = read_rejects v \<and> modify_rejects v' = modify_rejects v \<and>
         (\<forall>p. p \<notin> path ` set files \<longrightarrow> stored v' p = stored v p) \<and>
         (\<forall>file\<in>set files.
            stored v' (path file) =
              (if (\<exists>e. vault_read v (path file) = Inl e) \<or> path file \<in> modify_rejects v
               then stored v (path file)
               else map_option (\<lambda>content. cleanBrokenWikilinks st content brokenLinks)
                      (stored v (path file))))"
  using assms
proof (induction files arbitrary: v n)
  case Nil
  then show ?case by simp
next
  case (Cons f fs)
  obtain v1 cleaned where c: "cleanFile st v f brokenLinks = (v1, cleaned)"
    by (cases "cleanFile st v f brokenLinks")
  note e = cleanFile_effect [OF c]
  from Cons.prems(1) c
  have l: "cleanAllFiles_loop st brokenLinks fs
             (v1, if cleaned then n + 1 else n) = (v', n')"
    by simp
  from Cons.prems(2) have d: "distinct (map path fs)" and nf: "path f \<notin> path ` set fs"
    by auto
  note ih = Cons.IH [OF l d]
  have same: "\<And>g. g \<in> set fs \<Longrightarrow> stored v1 (path g) = stored v (path g)"
    using e nf by (metis image_eqI)
  have rd: "\<And>g. g \<in> set fs \<Longrightarrow> vault_read v1 (path g) = vault_read v (path g)"
    using e same by (intro vault_read_cong) simp_all
  show ?case
  proof (intro conjI allI ballI impI)
    show "read_rejects v' = read_rejects v" using ih e by simp
    show "modify_rejects v' = modify_rejects v" using ih e by simp
  next
    fix p assume "p \<notin> path ` set (f # fs)"
    then show "stored v' p = stored v p" using ih e by auto
  next
    fix g assume g: "g \<in> set (f # fs)"
    show "stored v' (path g) =
              (if (\<exists>e. vault_read v (path g) = Inl e) \<or> path g \<in> modify_rejects v
               then stored v (path g)
               else map_option (\<lambda>content. cleanBrokenWikilinks st content brokenLinks)
                      (stored v (path g)))"
    proof (cases "g \<in> set fs")
      case True
      then show ?thesis using ih rd [OF True] same [OF True] e by simp
    next
      case False
      with g have "g = f" by simp
      moreover have "stored v' (path f) = stored v1 (path f)"
        using ih nf by simp
      ultimately show ?thesis using e by simp
    qed
  qed
qed

text \<open>
  C8. In a whole-vault clean a file whose read or write fails is answered \<open>False\<close> by
  \<^verbatim>\<open>cleanFile\<close> with the vault as it was, and the pass goes on: it ends with its
  notice, every failing file holds what it held, and every other file holds its cleaned
  content.
\<close>

theorem failing_file_never_aborts_clean:
  assumes "loadBrokenLinks st v = Inr brokenLinks" and "brokenLinks \<noteq> {}"
    and "distinct (map path (getMarkdownFiles v))"
  shows "(\<forall>file. (\<exists>e. vault_read v (path file) = Inl e) \<or> path file \<in> modify_rejects v \<longrightarrow>
            cleanFile st v file brokenLinks = (v, False)) \<and>
         (\<exists>v' cleanedCount.
            cleanAllFiles st v = Inr (v', Some (cleanedCount, length (getMarkdownFiles v))) \<and>
            (\<forall>file\<in>set (getMarkdownFiles v).
               stored v' (path file) =
                 (if (\<exists>e. vault_read v (path file) = Inl e) \<or> path file \<in> modify_rejects v
                  then stored v (path file)
                  else map_option (\<lambda>content. cleanBrokenWikilinks st content brokenLinks)
                         (stored v (path file)))))"
proof -
  obtain v' n where l:
    "cleanAllFiles_loop st brokenLinks (getMarkdownFiles v) (v, 0) = (v', n)"
    by (cases "cleanAllFiles_loop st brokenLinks (getMarkdownFiles v) (v, 0)")
  then have "cleanAllFiles st v = Inr (v', Some (n, length (getMarkdownFiles v)))"
    using assms(1,2) by (simp add: cleanAllFiles_def)
  with cleanAllFiles_loop_effect [OF l assms(3)] show ?thesis
    using cleanFile_failure by blast
qed


theorem failing_file_never_aborts_clean_witness:
  "loadBrokenLinks DEFAULT_SETTINGS
     \<lparr>getMarkdownFiles =
        [\<lparr>path = ''a.md'', basename = ''a'', name = ''a.md''\<rparr>,
         \<lparr>path = ''b.md'', basename = ''b'', name = ''b.md''\<rparr>,
         \<lparr>path = ''c.md'', basename = ''c'', name = ''c.md''\<rparr>],
      stored = [''broken links output.md'' \<mapsto> ''- [[Gone]]'',
                ''a.md'' \<mapsto> ''[[Gone]] a'', ''b.md'' \<mapsto> ''[[Gone]] b'',
                ''c.md'' \<mapsto> ''[[Gone]] c''],
      read_rejects = {''a.md''}, modify_rejects = {''b.md''}, writes = []\<rparr>
     = Inr {''[[Gone]]''}
   \<and> {''[[Gone]]''} \<noteq> ({} :: string set)
   \<and> (\<exists>v' cleanedCount.
        cleanAllFiles DEFAULT_SETTINGS
          \<lparr>getMarkdownFiles =
             [\<lparr>path = ''a.md'', basename = ''a'', name = ''a.md''\<rparr>,
              \<lparr>path = ''b.md'', basename = ''b'', name = ''b.md''\<rparr>,
              \<lparr>path = ''c.md'', basename = ''c'', name = ''c.md''\<rparr>],
           stored = [''broken links output.md'' \<mapsto> ''- [[Gone]]'',
                     ''a.md'' \<mapsto> ''[[Gone]] a'', ''b.md'' \<mapsto> ''[[Gone]] b'',
                     ''c.md'' \<mapsto> ''[[Gone]] c''],
           read_rejects = {''a.md''}, modify_rejects = {''b.md''}, writes = []\<rparr>
          = Inr (v', Some (cleanedCount, 3)) \<and>
        stored v' ''a.md'' = Some ''[[Gone]] a'' \<and>
        stored v' ''b.md'' = Some ''[[Gone]] b'' \<and>
        stored v' ''c.md'' = Some ''Gone c'')"
proof -
  let ?a = "\<lparr>path = ''a.md'', basename = ''a'', name = ''a.md''\<rparr>"
  let ?b = "\<lparr>path = ''b.md'', basename = ''b'', name = ''b.md''\<rparr>"
  let ?c = "\<lparr>path = ''c.md'', basename = ''c'', name = ''c.md''\<rparr>"
  let ?v = "\<lparr>getMarkdownFiles = [?a, ?b, ?c],
      stored = [''broken links output.md'' \<mapsto> ''- [[Gone]]'',
                ''a.md'' \<mapsto> ''[[Gone]] a'', ''b.md'' \<mapsto> ''[[Gone]] b'',
                ''c.md'' \<mapsto> ''[[Gone]] c''],
      read_rejects = {''a.md''}, modify_rejects = {''b.md''}, writes = []\<rparr>"
  have h1: "loadBrokenLinks DEFAULT_SETTINGS ?v = Inr {''[[Gone]]''}"
    by (simp add: loader_eval)
  have h2: "{''[[Gone]]''} \<noteq> ({} :: string set)"
    by simp
  have h3: "distinct (map path (getMarkdownFiles ?v))"
    by simp
  have c: "cleanBrokenWikilinks DEFAULT_SETTINGS ''[[Gone]] c'' {''[[Gone]]''} = ''Gone c''"
    by (simp add: cleanBrokenWikilinks_def DEFAULT_SETTINGS_def alias_at_def plain_at_def
        link_char_def not_close_def bracketed_def)
  from failing_file_never_aborts_clean [OF h1 h2 h3]
  obtain v' n where r: "cleanAllFiles DEFAULT_SETTINGS ?v = Inr (v', Some (n, 3))"
    and s: "\<forall>file\<in>set (getMarkdownFiles ?v).
               stored v' (path file) =
                 (if (\<exists>e. vault_read ?v (path file) = Inl e) \<or> path file \<in> modify_rejects ?v
                  then stored ?v (path file)
                  else map_option (\<lambda>content. cleanBrokenWikilinks DEFAULT_SETTINGS content
                           {''[[Gone]]''})
                         (stored ?v (path file)))"
    by auto
  from s have "stored v' ''a.md'' = Some ''[[Gone]] a''"
    by (simp add: vault_read_def)
  moreover from s have "stored v' ''b.md'' = Some ''[[Gone]] b''"
    by (simp add: vault_read_def)
  moreover from s c have "stored v' ''c.md'' = Some ''Gone c''"
    by (simp add: vault_read_def)
  ultimately show ?thesis using h1 h2 r by blast
qed

section \<open>Orphan files: claim C9\<close>

lemma findOrphanFiles_links_dom:
  "dom (findOrphanFiles_links res f links allLinks) =
     dom allLinks \<union>
     {path t |t link. link \<in> set links \<and> res (before_pipe (slice_2_m2 link)) (path f) = Some t}"
proof (induction links arbitrary: allLinks)
  case Nil
  then show ?case by simp
next
  case (Cons link links)
  let ?S = "\<lambda>ls. {path t |t l. l \<in> set ls \<and> res (before_pipe (slice_2_m2 l)) (path f) = Some t}"
  show ?case
  proof (cases "res (before_pipe (slice_2_m2 link)) (path f)")
    case None
    then have "findOrphanFiles_links res f (link # links) allLinks =
               findOrphanFiles_links res f links allLinks"
      by simp
    moreover from None have "?S (link # links) = ?S links"
      by auto
    ultimately show ?thesis
      using Cons.IH [of allLinks] by simp
  next
    case (Some t)
    let ?m = "allLinks(path t \<mapsto>
               (case allLinks (path t) of None \<Rightarrow> [] | Some ps \<Rightarrow> ps) @ [path f])"
    from Some have e: "findOrphanFiles_links res f (link # links) allLinks =
               findOrphanFiles_links res f links ?m"
      by simp
    have "dom (findOrphanFiles_links res f (link # links) allLinks) =
          dom (findOrphanFiles_links res f links ?m)"
      by (simp only: e)
    also have "\<dots> = dom ?m \<union> ?S links"
      by (rule Cons.IH)
    also have "\<dots> = insert (path t) (dom allLinks) \<union> ?S links"
      by simp
    also have "\<dots> = dom allLinks \<union> ?S (link # links)"
      using Some by auto
    finally show ?thesis .
  qed
qed

lemma findOrphanFiles_loop_dom:
  assumes "findOrphanFiles_loop res v fs allLinks = Inr allLinks'"
  shows "dom allLinks' =
     dom allLinks \<union>
     {path t |t g content link. g \<in> set fs \<and> vault_read v (path g) = Inr content \<and>
        link \<in> set (plain_matches content) \<and>
        res (before_pipe (slice_2_m2 link)) (path g) = Some t}"
  using assms
proof (induction fs arbitrary: allLinks)
  case Nil
  then show ?case by simp
next
  case (Cons f fs)
  from Cons.prems obtain content where r: "vault_read v (path f) = Inr content"
    and l: "findOrphanFiles_loop res v fs
              (findOrphanFiles_links res f (plain_matches content) allLinks) = Inr allLinks'"
    by (auto split: sum.splits)
  show ?case
    unfolding Cons.IH [OF l] findOrphanFiles_links_dom
    using r by auto
qed

lemma findOrphanFiles_loop_returns:
  assumes "\<forall>f\<in>set fs. \<exists>content. vault_read v (path f) = Inr content"
  shows "\<exists>allLinks'. findOrphanFiles_loop res v fs allLinks = Inr allLinks'"
  using assms by (induction fs arbitrary: allLinks) auto

text \<open>
  C9. The modal that shows the result says that the files listed have no incoming links
  from other notes, and so does the claim. A note whose only incoming link is its own is
  not listed: the map of incoming links has no test that the source differs from the
  target.
\<close>

theorem findOrphanFiles_self_link:
  "findOrphanFiles
     (\<lambda>linkpath sourcePath.
        if linkpath = ''A'' then Some \<lparr>path = ''A.md'', basename = ''A'', name = ''A.md''\<rparr>
        else None)
     \<lparr>getMarkdownFiles = [\<lparr>path = ''A.md'', basename = ''A'', name = ''A.md''\<rparr>],
      stored = [''A.md'' \<mapsto> ''See also [[A]].''],
      read_rejects = {}, modify_rejects = {}, writes = []\<rparr>
   = Inr []"
  by (simp add: findOrphanFiles_def vault_read_def plain_at_def not_close_def bracketed_def
      slice_2_m2_def before_pipe_def)

text \<open>
  What \<^verbatim>\<open>findOrphanFiles\<close> computes (the second wording of C9): when every file
  can be read, the files listed are those whose path is the resolved target of no link
  occurrence in any file, their own links included.
\<close>

theorem orphans_are_unresolved_targets:
  assumes "\<forall>f\<in>set (getMarkdownFiles v). \<exists>content. vault_read v (path f) = Inr content"
  shows "\<exists>orphanFiles.
           findOrphanFiles res v = Inr orphanFiles \<and>
           set orphanFiles =
             {f \<in> set (getMarkdownFiles v).
                \<not> (\<exists>g\<in>set (getMarkdownFiles v). \<exists>content.
                      vault_read v (path g) = Inr content \<and>
                      (\<exists>link\<in>set (plain_matches content). \<exists>t.
                         res (before_pipe (slice_2_m2 link)) (path g) = Some t \<and>
                         path t = path f))}"
proof -
  from findOrphanFiles_loop_returns [OF assms] obtain allLinks where
    l: "findOrphanFiles_loop res v (getMarkdownFiles v) Map.empty = Inr allLinks"
    by blast
  have D: "dom allLinks =
     {path t |t g content link. g \<in> set (getMarkdownFiles v) \<and>
        vault_read v (path g) = Inr content \<and> link \<in> set (plain_matches content) \<and>
        res (before_pipe (slice_2_m2 link)) (path g) = Some t}"
    using findOrphanFiles_loop_dom [OF l] by simp
  have iff: "(allLinks (path f) = None) =
       (\<not> (\<exists>g\<in>set (getMarkdownFiles v). \<exists>content.
                      vault_read v (path g) = Inr content \<and>
                      (\<exists>link\<in>set (plain_matches content). \<exists>t.
                         res (before_pipe (slice_2_m2 link)) (path g) = Some t \<and>
                         path t = path f)))" for f
  proof -
    have "(allLinks (path f) = None) = (path f \<notin> dom allLinks)"
      by (simp add: domIff)
    also have "\<dots> = (\<not> (\<exists>g\<in>set (getMarkdownFiles v). \<exists>content.
                      vault_read v (path g) = Inr content \<and>
                      (\<exists>link\<in>set (plain_matches content). \<exists>t.
                         res (before_pipe (slice_2_m2 link)) (path g) = Some t \<and>
                         path t = path f)))"
      unfolding D by (simp add: Bex_def) metis
    finally show ?thesis .
  qed
  have "set (filter (\<lambda>f. allLinks (path f) = None) (getMarkdownFiles v)) =
             {f \<in> set (getMarkdownFiles v).
                \<not> (\<exists>g\<in>set (getMarkdownFiles v). \<exists>content.
                      vault_read v (path g) = Inr content \<and>
                      (\<exists>link\<in>set (plain_matches content). \<exists>t.
                         res (before_pipe (slice_2_m2 link)) (path g) = Some t \<and>
                         path t = path f))}"
    unfolding iff by simp
  with l show ?thesis
    by (simp add: findOrphanFiles_def)
qed


theorem orphans_are_unresolved_targets_witness:
  "findOrphanFiles
     (\<lambda>linkpath sourcePath.
        if linkpath = ''B'' then Some \<lparr>path = ''B.md'', basename = ''B'', name = ''B.md''\<rparr>
        else None)
     \<lparr>getMarkdownFiles =
        [\<lparr>path = ''A.md'', basename = ''A'', name = ''A.md''\<rparr>,
         \<lparr>path = ''B.md'', basename = ''B'', name = ''B.md''\<rparr>,
         \<lparr>path = ''C.md'', basename = ''C'', name = ''C.md''\<rparr>],
      stored = [''A.md'' \<mapsto> ''[[B|the other]]'', ''B.md'' \<mapsto> [], ''C.md'' \<mapsto> []],
      read_rejects = {}, modify_rejects = {}, writes = []\<rparr>
   = Inr [\<lparr>path = ''A.md'', basename = ''A'', name = ''A.md''\<rparr>,
          \<lparr>path = ''C.md'', basename = ''C'', name = ''C.md''\<rparr>]
   \<and> {f \<in> set [\<lparr>path = ''A.md'', basename = ''A'', name = ''A.md''\<rparr>,
                \<lparr>path = ''B.md'', basename = ''B'', name = ''B.md''\<rparr>,
                \<lparr>path = ''C.md'', basename = ''C'', name = ''C.md''\<rparr>].
        \<not> (\<exists>g\<in>set [\<lparr>path = ''A.md'', basename = ''A'', name = ''A.md''\<rparr>,
                      \<lparr>path = ''B.md'', basename = ''B'', name = ''B.md''\<rparr>,
                      \<lparr>path = ''C.md'', basename = ''C'', name = ''C.md''\<rparr>].
             \<exists>content.
               vault_read
                 \<lparr>getMarkdownFiles =
                    [\<lparr>path = ''A.md'', basename = ''A'', name = ''A.md''\<rparr>,
                     \<lparr>path = ''B.md'', basename = ''B'', name = ''B.md''\<rparr>,
                     \<lparr>path = ''C.md'', basename = ''C'', name = ''C.md''\<rparr>],
                  stored = [''A.md'' \<mapsto> ''[[B|the other]]'', ''B.md'' \<mapsto> [],
                            ''C.md'' \<mapsto> []],
                  read_rejects = {}, modify_rejects = {}, writes = []\<rparr> (path g)
               = Inr content \<and>
               (\<exists>link\<in>set (plain_matches content). \<exists>t.
                  (if before_pipe (slice_2_m2 link) = ''B''
                   then Some \<lparr>path = ''B.md'', basename = ''B'', name = ''B.md''\<rparr>
                   else None) = Some t \<and>
                  path t = path f))}
     = {\<lparr>path = ''A.md'', basename = ''A'', name = ''A.md''\<rparr>,
        \<lparr>path = ''C.md'', basename = ''C'', name = ''C.md''\<rparr>}"
proof -
  let ?A = "\<lparr>path = ''A.md'', basename = ''A'', name = ''A.md''\<rparr>"
  let ?B = "\<lparr>path = ''B.md'', basename = ''B'', name = ''B.md''\<rparr>"
  let ?C = "\<lparr>path = ''C.md'', basename = ''C'', name = ''C.md''\<rparr>"
  let ?res = "\<lambda>linkpath sourcePath :: string. if linkpath = ''B'' then Some ?B else None"
  let ?v = "\<lparr>getMarkdownFiles = [?A, ?B, ?C],
      stored = [''A.md'' \<mapsto> ''[[B|the other]]'', ''B.md'' \<mapsto> [], ''C.md'' \<mapsto> []],
      read_rejects = {}, modify_rejects = {}, writes = []\<rparr>"
  have h: "\<forall>f\<in>set (getMarkdownFiles ?v). \<exists>content. vault_read ?v (path f) = Inr content"
    by (simp add: vault_read_def)
  have e: "findOrphanFiles ?res ?v = Inr [?A, ?C]"
    by (simp add: findOrphanFiles_def vault_read_def plain_at_def not_close_def bracketed_def
        slice_2_m2_def before_pipe_def)
  from orphans_are_unresolved_targets [OF h, of ?res] e show ?thesis
    by simp
qed


section \<open>The two patterns\<close>

lemma alias_at_raw:
  assumes "alias_at s = Some (l, d, rest)"
  shows "s = bracketed (l @ CHR ''|'' # d) @ rest \<and> l \<noteq> [] \<and> d \<noteq> [] \<and>
         CHR '']'' \<notin> set l \<and> CHR ''|'' \<notin> set l \<and> CHR '']'' \<notin> set d"
proof -
  from assms obtain r r' where s: "s = ''[['' @ r" and l: "l = takeWhile link_char r"
    and ln: "l \<noteq> []" and dl: "dropWhile link_char r = CHR ''|'' # r'"
    and d: "d = takeWhile not_close r'" and dn: "d \<noteq> []"
    and dd: "dropWhile not_close r' = '']]'' @ rest"
    by (auto simp: alias_at_Some_iff)
  have "r = takeWhile link_char r @ dropWhile link_char r" by simp
  with l dl have r: "r = l @ CHR ''|'' # r'" by simp
  have "r' = takeWhile not_close r' @ dropWhile not_close r'" by simp
  with d dd have r': "r' = d @ '']]'' @ rest" by simp
  have "\<forall>c\<in>set l. link_char c" using l by (auto dest: set_takeWhileD)
  moreover have "\<forall>c\<in>set d. not_close c" using d by (auto dest: set_takeWhileD)
  ultimately show ?thesis
    using s r r' ln dn by (auto simp: bracketed_def link_char_def not_close_def)
qed

lemma alias_at_link:
  assumes "l \<noteq> []" "CHR '']'' \<notin> set l" "CHR ''|'' \<notin> set l"
    and "d \<noteq> []" "CHR '']'' \<notin> set d"
  shows "alias_at (bracketed (l @ CHR ''|'' # d) @ rest) = Some (l, d, rest)"
proof -
  have al: "\<forall>c\<in>set l. link_char c" using assms by (auto simp: link_char_def)
  have ad: "\<forall>c\<in>set d. not_close c" using assms by (auto simp: not_close_def)
  have 1: "takeWhile link_char (l @ CHR ''|'' # d @ '']]'' @ rest) = l"
    using al by (simp add: takeWhile_run link_char_def)
  have 2: "dropWhile link_char (l @ CHR ''|'' # d @ '']]'' @ rest) = CHR ''|'' # d @ '']]'' @ rest"
    using al by (simp add: dropWhile_run link_char_def)
  have 3: "takeWhile not_close (d @ CHR '']'' # CHR '']'' # rest) = d"
    using ad by (simp add: takeWhile_run not_close_def)
  have 4: "dropWhile not_close (d @ CHR '']'' # CHR '']'' # rest) = CHR '']'' # CHR '']'' # rest"
    using ad by (simp add: dropWhile_run not_close_def)
  show ?thesis
    using assms(1,4) 1 2 3 4
    by (simp add: alias_at_def bracketed_def Let_def)
qed

lemma alias_at_plain_at:
  assumes "alias_at s = Some (l, d, rest)"
  shows "plain_at s = Some (l @ CHR ''|'' # d, rest)"
proof -
  from alias_at_raw [OF assms]
  have "s = bracketed (l @ CHR ''|'' # d) @ rest" and "l @ CHR ''|'' # d \<noteq> []"
    and "CHR '']'' \<notin> set (l @ CHR ''|'' # d)"
    by auto
  then show ?thesis
    using plain_at_bracketed by blast
qed

lemma at_not_open:
  "c \<noteq> CHR ''['' \<Longrightarrow> alias_at (c # s) = None"
  "c \<noteq> CHR ''['' \<Longrightarrow> plain_at (c # s) = None"
  by (simp_all add: alias_at_def plain_at_def)

lemma alias_at_no_pipe:
  assumes "CHR '']'' \<notin> set u" "CHR ''|'' \<notin> set u"
  shows "alias_at (u @ CHR '']'' # r) = None"
proof (cases "literal ''[['' (u @ CHR '']'' # r)")
  case None
  then show ?thesis by (simp add: alias_at_def)
next
  case (Some r0)
  then have e: "u @ CHR '']'' # r = ''[['' @ r0"
    by (simp add: literal_Some_iff)
  with assms(1) obtain u' where u: "u = ''[['' @ u'" and r0: "r0 = u' @ CHR '']'' # r"
    by (cases u; cases "tl u") auto
  have al: "\<forall>c\<in>set u'. link_char c" using assms u by (auto simp: link_char_def)
  have "dropWhile link_char r0 = CHR '']'' # r"
    unfolding r0 using al by (simp add: dropWhile_run link_char_def)
  then show ?thesis
    using Some by (simp add: alias_at_def Let_def)
qed

section \<open>The passes on prose and on links\<close>

lemma plain_prose_tail: "plain_prose (c # s) \<Longrightarrow> plain_prose s"
  by (cases s) auto

lemma plain_prose_no_match:
  assumes "plain_prose (c # s)"
  shows "alias_at (c # s @ r) = None" and "plain_at (c # s @ r) = None"
proof -
  have "literal ''[['' (c # s @ r) = None"
  proof (cases s)
    case Nil
    with assms show ?thesis by simp
  next
    case (Cons d s')
    with assms show ?thesis by auto
  qed
  then show "alias_at (c # s @ r) = None" and "plain_at (c # s @ r) = None"
    by (simp_all add: alias_at_def plain_at_def)
qed

lemma no_open_plain_prose: "CHR ''['' \<notin> set s \<Longrightarrow> plain_prose s"
  by (induction s rule: plain_prose.induct) auto

lemma plain_prose_append: "plain_prose x \<Longrightarrow> plain_prose y \<Longrightarrow> plain_prose (x @ y)"
proof (induction x rule: plain_prose.induct)
  case 1
  then show ?case by simp
next
  case (2 c)
  then show ?case by (cases y) auto
next
  case (3 c d s)
  then show ?case by simp
qed

lemma plain_prose_pipe:
  assumes "plain_prose t" "plain_prose d"
  shows "plain_prose (t @ CHR ''|'' # d)"
proof -
  have "plain_prose (CHR ''|'' # d)"
    using assms(2) by (cases d) auto
  with assms(1) show ?thesis by (rule plain_prose_append)
qed

lemma alias_pass_prose:
  "plain_prose s \<Longrightarrow> alias_pass del K (s @ r) = s @ alias_pass del K r"
proof (induction s)
  case Nil
  then show ?case by simp
next
  case (Cons c s)
  from plain_prose_no_match(1) [OF Cons.prems, of r] Cons.IH [OF plain_prose_tail [OF Cons.prems]]
  show ?case by simp
qed

lemma plain_pass_prose:
  "plain_prose s \<Longrightarrow> plain_pass del K (s @ r) = s @ plain_pass del K r"
proof (induction s)
  case Nil
  then show ?case by simp
next
  case (Cons c s)
  from plain_prose_no_match(2) [OF Cons.prems, of r] Cons.IH [OF plain_prose_tail [OF Cons.prems]]
  show ?case by simp
qed

lemma alias_pass_no_pipe:
  assumes "CHR '']'' \<notin> set u" "CHR ''|'' \<notin> set u"
  shows "alias_pass del K (u @ CHR '']'' # r) = u @ alias_pass del K (CHR '']'' # r)"
  using assms
proof (induction u)
  case Nil
  then show ?case by simp
next
  case (Cons c u)
  then have "alias_at ((c # u) @ CHR '']'' # r) = None"
    by (intro alias_at_no_pipe) auto
  with Cons show ?case by simp
qed

lemma alias_pass_link:
  assumes "CHR '']'' \<notin> set t" "CHR ''|'' \<notin> set t"
  shows "alias_pass del K (bracketed t @ r) = bracketed t @ alias_pass del K r"
proof -
  have "CHR '']'' \<notin> set (''[['' @ t)" "CHR ''|'' \<notin> set (''[['' @ t)"
    using assms by auto
  from alias_pass_no_pipe [OF this, of del K "CHR '']'' # r"]
  show ?thesis
    by (simp add: bracketed_def at_not_open)
qed

lemma alias_pass_alias:
  assumes "l \<noteq> []" "CHR '']'' \<notin> set l" "CHR ''|'' \<notin> set l"
    and "d \<noteq> []" "CHR '']'' \<notin> set d"
  shows "alias_pass del K (bracketed (l @ CHR ''|'' # d) @ r) =
           (if bracketed l \<in> K then (if del then [] else d) else bracketed (l @ CHR ''|'' # d))
           @ alias_pass del K r"
proof -
  have "bracketed (l @ CHR ''|'' # d) @ r = CHR ''['' # tl (bracketed (l @ CHR ''|'' # d) @ r)"
    by (simp add: bracketed_def)
  then show ?thesis
    using alias_at_link [OF assms, of r]
    by (metis (no_types, lifting) alias_pass.simps(2) bracketed_def append_assoc
        option.simps(5) case_prod_conv append_Cons append_Nil)
qed

lemma plain_pass_link:
  assumes "t \<noteq> []" "CHR '']'' \<notin> set t"
  shows "plain_pass del K (bracketed t @ r) =
           (if bracketed t \<in> K then (if del then [] else t) else bracketed t)
           @ plain_pass del K r"
proof -
  have "bracketed t @ r = CHR ''['' # tl (bracketed t @ r)"
    by (simp add: bracketed_def)
  then show ?thesis
    using plain_at_bracketed [OF assms, of r]
    by (metis (no_types, lifting) plain_pass.simps(2) option.simps(5) case_prod_conv)
qed


lemma alias_pass_piece:
  assumes "well_formed p"
  shows "alias_pass del K (rawSpan p @ r) = rawSpan (alias_rewrite del K p) @ alias_pass del K r"
proof (cases p)
  case (Prose s)
  with assms show ?thesis by (simp add: alias_pass_prose)
next
  case (Link t)
  with assms show ?thesis by (simp add: alias_pass_link)
next
  case (AliasLink t d)
  with assms alias_pass_alias [of t d del K r] show ?thesis by simp
qed

lemma plain_pass_piece:
  assumes "well_formed p"
  shows "plain_pass del K (rawSpan p @ r) = rawSpan (plain_rewrite del K p) @ plain_pass del K r"
proof (cases p)
  case (Prose s)
  with assms show ?thesis by (simp add: plain_pass_prose)
next
  case (Link t)
  with assms show ?thesis by (simp add: plain_pass_link)
next
  case (AliasLink t d)
  with assms plain_pass_link [of "t @ CHR ''|'' # d" del K r] show ?thesis by simp
qed

lemma well_formed_alias_rewrite: "well_formed p \<Longrightarrow> well_formed (alias_rewrite del K p)"
  by (cases p) auto

lemma well_formed_plain_rewrite: "well_formed p \<Longrightarrow> well_formed (plain_rewrite del K p)"
  by (cases p) (auto simp: plain_prose_pipe)

lemma alias_pass_render:
  assumes "\<forall>p\<in>set ps. well_formed p"
  shows "alias_pass del K (render ps @ r) =
           render (map (alias_rewrite del K) ps) @ alias_pass del K r"
  using assms by (induction ps) (simp_all add: render_def alias_pass_piece)

lemma plain_pass_render:
  assumes "\<forall>p\<in>set ps. well_formed p"
  shows "plain_pass del K (render ps @ r) =
           render (map (plain_rewrite del K) ps) @ plain_pass del K r"
  using assms by (induction ps) (simp_all add: render_def plain_pass_piece)

lemma clean_render:
  assumes "\<forall>p\<in>set ps. well_formed p"
  shows "cleanBrokenWikilinks st (render ps @ r) K =
           render (map (plain_rewrite (deleteText st) K \<circ> alias_rewrite (deleteText st) K) ps)
           @ plain_pass (deleteText st) K (alias_pass (deleteText st) K r)"
proof -
  have "\<forall>p\<in>set (map (alias_rewrite (deleteText st) K) ps). well_formed p"
    using assms by (simp add: well_formed_alias_rewrite)
  from plain_pass_render [OF this] alias_pass_render [OF assms]
  show ?thesis by (simp add: cleanBrokenWikilinks_def)
qed

lemma clean_render_split:
  assumes "\<forall>p\<in>set ps. well_formed p"
  shows "cleanBrokenWikilinks st (render ps @ r) K =
           cleanBrokenWikilinks st (render ps) K @
           plain_pass (deleteText st) K (alias_pass (deleteText st) K r)"
  using clean_render [OF assms, of st "[]" K] clean_render [OF assms, of st r K]
  by simp

lemma rewrite_twice:
  "(plain_rewrite del K \<circ> alias_rewrite del K)
     ((plain_rewrite del K \<circ> alias_rewrite del K) p) =
   (plain_rewrite del K \<circ> alias_rewrite del K) p"
  by (cases p) auto

lemma well_formed_rewrite:
  "well_formed p \<Longrightarrow> well_formed ((plain_rewrite del K \<circ> alias_rewrite del K) p)"
  by (simp add: well_formed_alias_rewrite well_formed_plain_rewrite)

section \<open>Texts no key matches\<close>

lemma alias_pass_unchanged:
  assumes "\<forall>(l, d)\<in>set (alias_matches s). bracketed l \<notin> K"
  shows "alias_pass del K s = s"
  using assms
proof (induction s rule: alias_matches.induct)
  case 1
  then show ?case by simp
next
  case (2 c cs)
  show ?case
  proof (cases "alias_at (c # cs)")
    case None
    with 2 show ?thesis by simp
  next
    case (Some m)
    then obtain l d rest where m: "alias_at (c # cs) = Some (l, d, rest)"
      by (cases m) auto
    from alias_at_raw [OF m] have raw: "c # cs = bracketed (l @ CHR ''|'' # d) @ rest"
      by simp
    from m "2.prems" have "bracketed l \<notin> K" and "\<forall>(l, d)\<in>set (alias_matches rest). bracketed l \<notin> K"
      by auto
    with "2.IH"(2) [OF m] m raw show ?thesis
      by (simp add: bracketed_def)
  qed
qed

lemma plain_pass_unchanged:
  assumes "\<forall>m\<in>set (plain_matches s). m \<notin> K"
  shows "plain_pass del K s = s"
  using assms
proof (induction s rule: plain_matches.induct)
  case 1
  then show ?case by simp
next
  case (2 c cs)
  show ?case
  proof (cases "plain_at (c # cs)")
    case None
    with 2 show ?thesis by simp
  next
    case (Some m)
    then obtain t rest where m: "plain_at (c # cs) = Some (t, rest)"
      by (cases m) auto
    from plain_at_raw [OF m] have raw: "c # cs = bracketed t @ rest" .
    from m "2.prems" have "bracketed t \<notin> K" and "\<forall>m\<in>set (plain_matches rest). m \<notin> K"
      by auto
    with "2.IH"(2) [OF m] m raw show ?thesis
      by (simp add: bracketed_def)
  qed
qed


section \<open>One occurrence in its text\<close>

lemma no_close_no_match:
  assumes "CHR '']'' \<notin> set s"
  shows "plain_at s = None" and "alias_at s = None"
proof -
  show "plain_at s = None"
  proof (cases "plain_at s")
    case (Some m)
    then obtain t rest where "plain_at s = Some (t, rest)" by (cases m) auto
    from plain_at_raw [OF this] assms show ?thesis by (simp add: bracketed_def)
  qed simp
  show "alias_at s = None"
  proof (cases "alias_at s")
    case (Some m)
    then obtain l d rest where "alias_at s = Some (l, d, rest)" by (cases m) auto
    from alias_at_raw [OF this] assms show ?thesis by (simp add: bracketed_def)
  qed simp
qed

lemma no_close_unchanged:
  assumes "CHR '']'' \<notin> set s"
  shows "plain_pass del K s = s" and "alias_pass del K s = s"
  using assms by (induction s) (simp_all add: no_close_no_match)

lemma clean_empty: "cleanBrokenWikilinks st [] K = []"
  by (simp add: cleanBrokenWikilinks_def)

lemma clean_plain_occurrence:
  assumes "\<forall>p\<in>set before. well_formed p"
    and "a \<noteq> []" "CHR '']'' \<notin> set a" "CHR ''|'' \<notin> set a"
  shows "cleanBrokenWikilinks st (render before @ bracketed a @ post) K =
           cleanBrokenWikilinks st (render before) K @
           (if bracketed a \<in> K then (if deleteText st then [] else a) else bracketed a) @
           cleanBrokenWikilinks st post K"
  unfolding clean_render_split [OF assms(1), of st "bracketed a @ post" K]
  by (simp add: alias_pass_link [OF assms(3,4)] plain_pass_link [OF assms(2,3)]
      cleanBrokenWikilinks_def)

lemma clean_alias_occurrence_kept:
  assumes "\<forall>p\<in>set before. well_formed p"
    and "a \<noteq> []" "CHR '']'' \<notin> set a" "CHR ''|'' \<notin> set a"
    and "b \<noteq> []" "CHR '']'' \<notin> set b"
    and "bracketed a \<notin> K"
  shows "cleanBrokenWikilinks st (render before @ bracketed (a @ CHR ''|'' # b) @ post) K =
           cleanBrokenWikilinks st (render before) K @
           (if bracketed (a @ CHR ''|'' # b) \<in> K
            then (if deleteText st then [] else a @ CHR ''|'' # b)
            else bracketed (a @ CHR ''|'' # b)) @
           cleanBrokenWikilinks st post K"
proof -
  have "a @ CHR ''|'' # b \<noteq> []" "CHR '']'' \<notin> set (a @ CHR ''|'' # b)"
    using assms by auto
  note pl = plain_pass_link [OF this]
  show ?thesis
    unfolding clean_render_split [OF assms(1), of st "bracketed (a @ CHR ''|'' # b) @ post" K]
    using assms(7) pl
    by (simp add: alias_pass_alias [OF assms(2-6)] cleanBrokenWikilinks_def)
qed

lemma clean_alias_occurrence_broken:
  assumes "\<forall>p\<in>set before. well_formed p"
    and "a \<noteq> []" "CHR '']'' \<notin> set a" "CHR ''|'' \<notin> set a"
    and "b \<noteq> []" "CHR '']'' \<notin> set b"
    and "bracketed a \<in> K"
    and "deleteText st \<or> plain_prose b \<or> CHR '']'' \<notin> set post"
  shows "cleanBrokenWikilinks st (render before @ bracketed (a @ CHR ''|'' # b) @ post) K =
           cleanBrokenWikilinks st (render before) K @
           (if deleteText st then [] else b) @
           cleanBrokenWikilinks st post K"
proof -
  let ?del = "deleteText st"
  have e: "cleanBrokenWikilinks st (render before @ bracketed (a @ CHR ''|'' # b) @ post) K =
           cleanBrokenWikilinks st (render before) K @
           plain_pass ?del K ((if ?del then [] else b) @ alias_pass ?del K post)"
    unfolding clean_render_split [OF assms(1), of st "bracketed (a @ CHR ''|'' # b) @ post" K]
    using assms(7) by (simp add: alias_pass_alias [OF assms(2-6)])
  have "plain_pass ?del K ((if ?del then [] else b) @ alias_pass ?del K post) =
        (if ?del then [] else b) @ cleanBrokenWikilinks st post K"
  proof (cases "?del \<or> plain_prose b")
    case True
    then show ?thesis
      by (auto simp: plain_pass_prose cleanBrokenWikilinks_def)
  next
    case False
    with assms(8) have np: "CHR '']'' \<notin> set post" by simp
    then have "CHR '']'' \<notin> set (b @ post)" using assms(6) by simp
    from no_close_unchanged(1) [OF this] no_close_unchanged [OF np] False
    show ?thesis
      by (simp add: cleanBrokenWikilinks_def)
  qed
  with e show ?thesis by simp
qed

lemma cleanFile_no_change:
  assumes "vault_read v (path f) = Inr content"
    and "cleanBrokenWikilinks st content K = content"
  shows "cleanFile st v f K = (v, False)"
  using assms by (simp add: cleanFile_def)

section \<open>The Rewriter: claims C1, C4, C5 and C7\<close>

lemmas rewriter_eval = cleanBrokenWikilinks_def DEFAULT_SETTINGS_def alias_at_def
  plain_at_def link_char_def not_close_def bracketed_def render_def

text \<open>
  C1, as the claim states it, fails. A link in alias form whose key is not in the set is
  still rewritten by the second pass when the set holds its full bracket expression;
  and an occurrence with an empty target, whose key no registry holds, is changed when
  an alias link inside it is broken.
\<close>

theorem valid_link_changed_counterexample:
  "''[[Page]]'' \<notin> {''[[Page|text]]''} \<and>
   cleanBrokenWikilinks DEFAULT_SETTINGS ''see [[Page|text]]'' {''[[Page|text]]''} =
     ''see Page|text'' \<and>
   plain_matches ''[[|[[a|b]]'' = [''[[|[[a|b]]''] \<and>
   scan_linkText ''[[|[[a|b]]'' = [] \<and> ''[[]]'' \<notin> {''[[a]]''} \<and>
   ''[[|[[a|b]]'' \<notin> {''[[a]]''} \<and>
   cleanBrokenWikilinks DEFAULT_SETTINGS ''[[|[[a|b]]'' {''[[a]]''} = ''[[|b''"
  by (simp add: rewriter_eval scan_linkText_def slice_2_m2_def before_pipe_def trim_def)

text \<open>
  C1, amended. Take a link \<^verbatim>\<open>[[a]]\<close> or \<^verbatim>\<open>[[a|b]]\<close> whose target \<open>a\<close> is not empty
  and holds no \<^verbatim>\<open>]\<close> and no \<^verbatim>\<open>|\<close>, and whose display text \<open>b\<close> is not empty and
  holds no \<^verbatim>\<open>]\<close>, standing after a text made of well-formed pieces. If its key
  \<^verbatim>\<open>[[a]]\<close> is not in the set and, for the alias form, its full bracket expression
  \<^verbatim>\<open>[[a|b]]\<close> is not in the set either, it stands unchanged in the output, between the
  cleaned text before it and the cleaned text after it. For every text: if the set holds
  the key of no match of the first pass and no match of the second pattern,
  \<^verbatim>\<open>cleanBrokenWikilinks\<close> returns the text itself; and when the cleaned content
  equals the content read, \<^verbatim>\<open>cleanFile\<close> answers \<open>False\<close> and leaves the vault, its log
  of writes included, as it was.
\<close>

theorem valid_links_untouched:
  assumes "\<forall>p\<in>set before. well_formed p"
    and "a \<noteq> []" "CHR '']'' \<notin> set a" "CHR ''|'' \<notin> set a"
  shows "(bracketed a \<notin> K \<longrightarrow>
            cleanBrokenWikilinks st (render before @ bracketed a @ post) K =
              cleanBrokenWikilinks st (render before) K @ bracketed a @
              cleanBrokenWikilinks st post K) \<and>
         (b \<noteq> [] \<and> CHR '']'' \<notin> set b \<and>
          bracketed a \<notin> K \<and> bracketed (a @ CHR ''|'' # b) \<notin> K \<longrightarrow>
            cleanBrokenWikilinks st (render before @ bracketed (a @ CHR ''|'' # b) @ post) K =
              cleanBrokenWikilinks st (render before) K @ bracketed (a @ CHR ''|'' # b) @
              cleanBrokenWikilinks st post K) \<and>
         ((\<forall>(l, d)\<in>set (alias_matches T). bracketed l \<notin> K) \<and>
          (\<forall>m\<in>set (plain_matches T). m \<notin> K) \<longrightarrow>
            cleanBrokenWikilinks st T K = T) \<and>
         (vault_read v (path f) = Inr T \<and> cleanBrokenWikilinks st T K = T \<longrightarrow>
            cleanFile st v f K = (v, False))"
proof (intro conjI impI)
  assume "bracketed a \<notin> K"
  then show "cleanBrokenWikilinks st (render before @ bracketed a @ post) K =
           cleanBrokenWikilinks st (render before) K @ bracketed a @
           cleanBrokenWikilinks st post K"
    using clean_plain_occurrence [OF assms(1-4), of st post K] by simp
next
  assume h: "b \<noteq> [] \<and> CHR '']'' \<notin> set b \<and>
          bracketed a \<notin> K \<and> bracketed (a @ CHR ''|'' # b) \<notin> K"
  then have b: "b \<noteq> []" "CHR '']'' \<notin> set b" and k: "bracketed a \<notin> K"
    and e: "bracketed (a @ CHR ''|'' # b) \<notin> K"
    by auto
  show "cleanBrokenWikilinks st (render before @ bracketed (a @ CHR ''|'' # b) @ post) K =
           cleanBrokenWikilinks st (render before) K @ bracketed (a @ CHR ''|'' # b) @
           cleanBrokenWikilinks st post K"
    using clean_alias_occurrence_kept [OF assms(1-4) b k, of st post] e by simp
next
  assume "(\<forall>(l, d)\<in>set (alias_matches T). bracketed l \<notin> K) \<and>
          (\<forall>m\<in>set (plain_matches T). m \<notin> K)"
  then show "cleanBrokenWikilinks st T K = T"
    by (simp add: cleanBrokenWikilinks_def alias_pass_unchanged plain_pass_unchanged)
next
  assume "vault_read v (path f) = Inr T \<and> cleanBrokenWikilinks st T K = T"
  then show "cleanFile st v f K = (v, False)"
    by (simp add: cleanFile_no_change)
qed

theorem valid_links_untouched_witness:
  "list_all well_formed [Prose ''- [ ] see '', AliasLink ''Gone'' ''it'', Prose '' and '']
   \<and> ''Home'' \<noteq> [] \<and> CHR '']'' \<notin> set ''Home'' \<and> CHR ''|'' \<notin> set ''Home''
   \<and> ''start'' \<noteq> [] \<and> CHR '']'' \<notin> set ''start''
   \<and> bracketed ''Home'' \<notin> {''[[Gone]]''}
   \<and> bracketed (''Home'' @ CHR ''|'' # ''start'') \<notin> {''[[Gone]]''}
   \<and> cleanBrokenWikilinks DEFAULT_SETTINGS ''- [ ] see [[Gone|it]] and [[Home]], [[Gone]]''
        {''[[Gone]]''} = ''- [ ] see it and [[Home]], Gone''
   \<and> cleanBrokenWikilinks DEFAULT_SETTINGS
        ''- [ ] see [[Gone|it]] and [[Home|start]], [[Gone]]''
        {''[[Gone]]''} = ''- [ ] see it and [[Home|start]], Gone''
   \<and> list_all (\<lambda>(l, d). bracketed l \<notin> {''[[Gone]]''})
        (alias_matches ''[[Home|start]] and [[Index]]'')
   \<and> list_all (\<lambda>m. m \<notin> {''[[Gone]]''}) (plain_matches ''[[Home|start]] and [[Index]]'')
   \<and> cleanBrokenWikilinks DEFAULT_SETTINGS ''[[Home|start]] and [[Index]]'' {''[[Gone]]''}
        = ''[[Home|start]] and [[Index]]''
   \<and> cleanFile DEFAULT_SETTINGS
        \<lparr>getMarkdownFiles = [\<lparr>path = ''a.md'', basename = ''a'', name = ''a.md''\<rparr>],
         stored = [''a.md'' \<mapsto> ''[[Home|start]] and [[Index]]''],
         read_rejects = {}, modify_rejects = {}, writes = []\<rparr>
        \<lparr>path = ''a.md'', basename = ''a'', name = ''a.md''\<rparr> {''[[Gone]]''}
      = (\<lparr>getMarkdownFiles = [\<lparr>path = ''a.md'', basename = ''a'', name = ''a.md''\<rparr>],
          stored = [''a.md'' \<mapsto> ''[[Home|start]] and [[Index]]''],
          read_rejects = {}, modify_rejects = {}, writes = []\<rparr>, False)"
proof -
  let ?before = "[Prose ''- [ ] see '', AliasLink ''Gone'' ''it'', Prose '' and '']"
  let ?K = "{''[[Gone]]''}"
  let ?T = "''[[Home|start]] and [[Index]]''"
  let ?f = "\<lparr>path = ''a.md'', basename = ''a'', name = ''a.md''\<rparr>"
  let ?v = "\<lparr>getMarkdownFiles = [?f], stored = [''a.md'' \<mapsto> ?T],
             read_rejects = {}, modify_rejects = {}, writes = []\<rparr>"
  have h1: "\<forall>p\<in>set ?before. well_formed p"
    by simp
  have h2: "''Home'' \<noteq> []" "CHR '']'' \<notin> set ''Home''" "CHR ''|'' \<notin> set ''Home''"
    by simp_all
  have h3: "''start'' \<noteq> []" "CHR '']'' \<notin> set ''start''"
    by simp_all
  have h4: "bracketed ''Home'' \<notin> ?K" "bracketed (''Home'' @ CHR ''|'' # ''start'') \<notin> ?K"
    by (simp_all add: bracketed_def)
  have m1: "\<forall>(l, d)\<in>set (alias_matches ?T). bracketed l \<notin> ?K"
    by (simp add: rewriter_eval)
  have m2: "\<forall>m\<in>set (plain_matches ?T). m \<notin> ?K"
    by (simp add: rewriter_eval)
  have r: "vault_read ?v (path ?f) = Inr ?T"
    by (simp add: vault_read_def)
  have b: "cleanBrokenWikilinks DEFAULT_SETTINGS (render ?before) ?K = ''- [ ] see it and ''"
    by (simp add: rewriter_eval)
  have p: "cleanBrokenWikilinks DEFAULT_SETTINGS '', [[Gone]]'' ?K = '', Gone''"
    by (simp add: rewriter_eval)
  note t = valid_links_untouched [OF h1 h2, of ?K DEFAULT_SETTINGS "'', [[Gone]]''" "''start''"
      ?T ?v ?f]
  from t h4 b p have c1: "cleanBrokenWikilinks DEFAULT_SETTINGS
      ''- [ ] see [[Gone|it]] and [[Home]], [[Gone]]'' ?K = ''- [ ] see it and [[Home]], Gone''"
    by (simp add: render_def bracketed_def)
  from t h3 h4 b p have c2: "cleanBrokenWikilinks DEFAULT_SETTINGS
      ''- [ ] see [[Gone|it]] and [[Home|start]], [[Gone]]'' ?K =
      ''- [ ] see it and [[Home|start]], Gone''"
    by (simp add: render_def bracketed_def)
  from t m1 m2 have c3: "cleanBrokenWikilinks DEFAULT_SETTINGS ?T ?K = ?T"
    by blast
  with t r have c4: "cleanFile DEFAULT_SETTINGS ?v ?f ?K = (?v, False)"
    by blast
  show ?thesis
    using h1 h2 h3 h4 m1 m2 c1 c2 c3 c4
    by (simp only: list_all_iff) blast
qed

text \<open>
  C4, as the claim states it, fails: deleting a broken link can bring the brackets
  around it together into a link that the next run deletes.
\<close>

theorem clean_twice_counterexample:
  "cleanBrokenWikilinks \<lparr>brokenLinksFile = ''broken links output.md'', deleteText = True\<rparr>
     (cleanBrokenWikilinks \<lparr>brokenLinksFile = ''broken links output.md'', deleteText = True\<rparr>
        ''[[a][[a]]]'' {''[[a]]''}) {''[[a]]''}
   \<noteq> cleanBrokenWikilinks \<lparr>brokenLinksFile = ''broken links output.md'', deleteText = True\<rparr>
        ''[[a][[a]]]'' {''[[a]]''}"
  by (simp add: rewriter_eval)

text \<open>
  C4, amended. \<^verbatim>\<open>cleanBrokenWikilinks\<close> is idempotent, for every set of keys and either
  setting of \<^verbatim>\<open>deleteText\<close>, on every text made of well-formed pieces: prose, plain
  links and alias links in which prose, targets and display texts hold no \<^verbatim>\<open>[[\<close> and
  do not end in \<^verbatim>\<open>[\<close>, every target is not empty and holds no \<^verbatim>\<open>]\<close> and no
  \<^verbatim>\<open>|\<close>, and every display text is not empty and holds no \<^verbatim>\<open>]\<close>.
\<close>

theorem clean_idempotent_on_well_formed:
  assumes "\<forall>p\<in>set ps. well_formed p"
  shows "cleanBrokenWikilinks st (cleanBrokenWikilinks st (render ps) K) K =
           cleanBrokenWikilinks st (render ps) K"
proof -
  let ?rw = "plain_rewrite (deleteText st) K \<circ> alias_rewrite (deleteText st) K"
  have 1: "cleanBrokenWikilinks st (render ps) K = render (map ?rw ps)"
    using clean_render [OF assms, of st "[]" K] by simp
  have "\<forall>p\<in>set (map ?rw ps). well_formed p"
    using assms well_formed_rewrite by auto
  from clean_render [OF this, of st "[]" K]
  have 2: "cleanBrokenWikilinks st (render (map ?rw ps)) K = render (map ?rw (map ?rw ps))"
    by simp
  have 3: "map ?rw (map ?rw ps) = map ?rw ps"
    using rewrite_twice [of "deleteText st" K] by (induction ps) auto
  show ?thesis
    by (simp only: 1 2 3)
qed

theorem clean_idempotent_on_well_formed_witness:
  "list_all well_formed
     [Prose ''- [x] '', Link ''a'', Prose '' [y](z) '', AliasLink ''b'' ''c'',
      AliasLink ''d'' ''e'']
   \<and> cleanBrokenWikilinks DEFAULT_SETTINGS ''- [x] [[a]] [y](z) [[b|c]][[d|e]]''
        {''[[a]]'', ''[[b]]''} = ''- [x] a [y](z) c[[d|e]]''
   \<and> cleanBrokenWikilinks DEFAULT_SETTINGS ''- [x] a [y](z) c[[d|e]]'' {''[[a]]'', ''[[b]]''}
       = ''- [x] a [y](z) c[[d|e]]''"
proof -
  let ?ps = "[Prose ''- [x] '', Link ''a'', Prose '' [y](z) '', AliasLink ''b'' ''c'',
              AliasLink ''d'' ''e'']"
  have h: "\<forall>p\<in>set ?ps. well_formed p"
    by simp
  have e: "cleanBrokenWikilinks DEFAULT_SETTINGS (render ?ps) {''[[a]]'', ''[[b]]''}
             = ''- [x] a [y](z) c[[d|e]]''"
    by (simp add: rewriter_eval)
  from clean_idempotent_on_well_formed [OF h, of DEFAULT_SETTINGS "{''[[a]]'', ''[[b]]''}"] e
  have "cleanBrokenWikilinks DEFAULT_SETTINGS ''- [x] a [y](z) c[[d|e]]''
          {''[[a]]'', ''[[b]]''} = ''- [x] a [y](z) c[[d|e]]''"
    by simp
  moreover from e
  have "cleanBrokenWikilinks DEFAULT_SETTINGS ''- [x] [[a]] [y](z) [[b|c]][[d|e]]''
          {''[[a]]'', ''[[b]]''} = ''- [x] a [y](z) c[[d|e]]''"
    by (simp add: render_def bracketed_def)
  ultimately show ?thesis
    unfolding list_all_iff using h by blast
qed

text \<open>
  C5, as the claim states it, fails. The display text that the first pass keeps can end
  in \<^verbatim>\<open>[[\<close>, and then the second pass matches from there and never sees the broken
  link that follows; and an alias link with an empty display text is not matched by the
  pattern of the first pass, whose display group asks for one character, while the
  second pass looks up its full expression, so it is left as it is under both settings.
\<close>

theorem broken_link_kept_counterexample:
  "plain_matches ''[[a|[[]][[t]]'' = [''[[a|[[]]'', ''[[t]]''] \<and>
   ''[[t]]'' \<in> {''[[a]]'', ''[[t]]''} \<and>
   cleanBrokenWikilinks DEFAULT_SETTINGS ''[[a|[[]][[t]]'' {''[[a]]'', ''[[t]]''} =
     ''[[[[t]]'' \<and>
   cleanBrokenWikilinks DEFAULT_SETTINGS ''[[a|]]'' {''[[a]]''} = ''[[a|]]'' \<and>
   cleanBrokenWikilinks \<lparr>brokenLinksFile = ''broken links output.md'', deleteText = True\<rparr>
     ''[[a|]]'' {''[[a]]''} = ''[[a|]]''"
  by (simp add: rewriter_eval)

text \<open>
  C5, amended. Take an occurrence whose key \<^verbatim>\<open>[[a]]\<close> is in the set, with \<open>a\<close> not
  empty and without \<^verbatim>\<open>]\<close> and \<^verbatim>\<open>|\<close>, standing after a text made of well-formed
  pieces. The plain form \<^verbatim>\<open>[[a]]\<close> is rewritten to \<open>a\<close>, or to nothing under deletion.
  The alias form \<^verbatim>\<open>[[a|b]]\<close>, with \<open>b\<close> not empty and without \<^verbatim>\<open>]\<close>, is rewritten
  to nothing under deletion and otherwise to \<open>b\<close>, provided that \<open>b\<close> holds no
  \<^verbatim>\<open>[[\<close> and does not end in \<^verbatim>\<open>[\<close>, or that the text after holds no \<^verbatim>\<open>]\<close>. In
  each case the result stands between the cleaned text before and the cleaned text
  after.
\<close>

theorem broken_occurrence_rewritten:
  assumes "\<forall>p\<in>set before. well_formed p"
    and "a \<noteq> []" "CHR '']'' \<notin> set a" "CHR ''|'' \<notin> set a"
    and "bracketed a \<in> K"
  shows "cleanBrokenWikilinks st (render before @ bracketed a @ post) K =
           cleanBrokenWikilinks st (render before) K @
           (if deleteText st then [] else a) @ cleanBrokenWikilinks st post K \<and>
         (b \<noteq> [] \<and> CHR '']'' \<notin> set b \<and>
          (deleteText st \<or> plain_prose b \<or> CHR '']'' \<notin> set post) \<longrightarrow>
          cleanBrokenWikilinks st (render before @ bracketed (a @ CHR ''|'' # b) @ post) K =
            cleanBrokenWikilinks st (render before) K @
            (if deleteText st then [] else b) @ cleanBrokenWikilinks st post K)"
proof (intro conjI impI)
  show "cleanBrokenWikilinks st (render before @ bracketed a @ post) K =
           cleanBrokenWikilinks st (render before) K @
           (if deleteText st then [] else a) @ cleanBrokenWikilinks st post K"
    using clean_plain_occurrence [OF assms(1-4), of st post K] assms(5) by simp
next
  assume "b \<noteq> [] \<and> CHR '']'' \<notin> set b \<and>
          (deleteText st \<or> plain_prose b \<or> CHR '']'' \<notin> set post)"
  then have b: "b \<noteq> []" "CHR '']'' \<notin> set b"
    and c: "deleteText st \<or> plain_prose b \<or> CHR '']'' \<notin> set post"
    by auto
  show "cleanBrokenWikilinks st (render before @ bracketed (a @ CHR ''|'' # b) @ post) K =
            cleanBrokenWikilinks st (render before) K @
            (if deleteText st then [] else b) @ cleanBrokenWikilinks st post K"
    by (rule clean_alias_occurrence_broken [OF assms(1-4) b assms(5) c])
qed

theorem broken_occurrence_rewritten_witness:
  "list_all well_formed [Prose ''x '']
   \<and> ''a'' \<noteq> [] \<and> CHR '']'' \<notin> set ''a'' \<and> CHR ''|'' \<notin> set ''a''
   \<and> ''b'' \<noteq> [] \<and> CHR '']'' \<notin> set ''b'' \<and> plain_prose ''b''
   \<and> bracketed ''a'' \<in> {''[[a]]''}
   \<and> cleanBrokenWikilinks \<lparr>brokenLinksFile = ''broken links output.md'', deleteText = True\<rparr>
        ''x [[a]] y'' {''[[a]]''} = ''x  y''
   \<and> cleanBrokenWikilinks \<lparr>brokenLinksFile = ''broken links output.md'', deleteText = True\<rparr>
        ''x [[a|b]] y'' {''[[a]]''} = ''x  y''
   \<and> cleanBrokenWikilinks DEFAULT_SETTINGS ''x [[a]] y'' {''[[a]]''} = ''x a y''
   \<and> cleanBrokenWikilinks DEFAULT_SETTINGS ''x [[a|b]] y'' {''[[a]]''} = ''x b y''"
proof -
  let ?del = "\<lparr>brokenLinksFile = ''broken links output.md'', deleteText = True\<rparr>"
  let ?K = "{''[[a]]''}"
  have h1: "\<forall>p\<in>set [Prose ''x '']. well_formed p"
    by simp
  have h2: "''a'' \<noteq> []" "CHR '']'' \<notin> set ''a''" "CHR ''|'' \<notin> set ''a''"
    by simp_all
  have h3: "''b'' \<noteq> []" "CHR '']'' \<notin> set ''b''" "plain_prose ''b''"
    by simp_all
  have h4: "bracketed ''a'' \<in> ?K"
    by (simp add: bracketed_def)
  have e: "cleanBrokenWikilinks ?del (render [Prose ''x '']) ?K = ''x ''"
    "cleanBrokenWikilinks ?del '' y'' ?K = '' y''"
    "cleanBrokenWikilinks DEFAULT_SETTINGS (render [Prose ''x '']) ?K = ''x ''"
    "cleanBrokenWikilinks DEFAULT_SETTINGS '' y'' ?K = '' y''"
    by (simp_all add: rewriter_eval)
  from broken_occurrence_rewritten [OF h1 h2 h4, of ?del "'' y''" "''b''"] h3 e
  have d: "cleanBrokenWikilinks ?del ''x [[a]] y'' ?K = ''x  y''"
    "cleanBrokenWikilinks ?del ''x [[a|b]] y'' ?K = ''x  y''"
    by (simp_all add: render_def bracketed_def)
  from broken_occurrence_rewritten [OF h1 h2 h4, of DEFAULT_SETTINGS "'' y''" "''b''"] h3 e
  have k: "cleanBrokenWikilinks DEFAULT_SETTINGS ''x [[a]] y'' ?K = ''x a y''"
    "cleanBrokenWikilinks DEFAULT_SETTINGS ''x [[a|b]] y'' ?K = ''x b y''"
    by (simp_all add: render_def bracketed_def DEFAULT_SETTINGS_def)
  show ?thesis
    unfolding list_all_iff using h1 h2 h3 h4 d k by blast
qed

lemma plain_matches_prose:
  "plain_prose s \<Longrightarrow> plain_matches (s @ r) = plain_matches r"
proof (induction s)
  case Nil
  then show ?case by simp
next
  case (Cons c s)
  from plain_prose_no_match(2) [OF Cons.prems, of r] Cons.IH [OF plain_prose_tail [OF Cons.prems]]
  show ?case by simp
qed

lemma plain_matches_link:
  assumes "t \<noteq> []" "CHR '']'' \<notin> set t"
  shows "plain_matches (bracketed t @ r) = bracketed t # plain_matches r"
proof -
  have "bracketed t @ r = CHR ''['' # tl (bracketed t @ r)"
    by (simp add: bracketed_def)
  then show ?thesis
    using plain_at_bracketed [OF assms, of r]
    by (metis (no_types, lifting) plain_matches.simps(2) option.simps(5) case_prod_conv)
qed

lemma plain_matches_piece:
  assumes "well_formed p"
  shows "plain_matches (rawSpan p @ r) =
           (case p of Prose s \<Rightarrow> [] | Link t \<Rightarrow> [bracketed t]
            | AliasLink t d \<Rightarrow> [bracketed (t @ CHR ''|'' # d)]) @ plain_matches r"
proof (cases p)
  case (Prose s)
  with assms show ?thesis by (simp add: plain_matches_prose)
next
  case (Link t)
  with assms show ?thesis by (simp add: plain_matches_link)
next
  case (AliasLink t d)
  with assms plain_matches_link [of "t @ CHR ''|'' # d" r] show ?thesis by simp
qed

lemma plain_matches_render:
  assumes "\<forall>p\<in>set ps. well_formed p"
  shows "plain_matches (render ps @ r) =
           concat (map (\<lambda>p. case p of Prose s \<Rightarrow> [] | Link t \<Rightarrow> [bracketed t]
                         | AliasLink t d \<Rightarrow> [bracketed (t @ CHR ''|'' # d)]) ps)
           @ plain_matches r"
  using assms by (induction ps) (simp_all add: render_def plain_matches_piece)

text \<open>
  C7, as the claim states it, fails: the first pass returns an alias link whose key is
  not in the set as it is, and the second pattern matches it, \<^verbatim>\<open>|\<close> included. An
  alias link with an empty display text reaches the second pass even when its key is in
  the set.
\<close>

theorem second_pass_sees_pipe_counterexample:
  "plain_matches (alias_pass False {} ''[[a|b]]'') = [''[[a|b]]''] \<and>
   CHR ''|'' \<in> set ''[[a|b]]'' \<and>
   plain_matches (alias_pass False {''[[a]]''} ''[[a|]]'') = [''[[a|]]'']"
  by (simp add: rewriter_eval)

text \<open>
  C7, amended. After the first pass over a text made of well-formed pieces (prose, plain
  links and alias links in which prose, targets and display texts hold no \<^verbatim>\<open>[[\<close> and
  do not end in \<^verbatim>\<open>[\<close>, every target is not empty and holds no \<^verbatim>\<open>]\<close> and no
  \<^verbatim>\<open>|\<close>, and every display text is not empty and holds no \<^verbatim>\<open>]\<close>), the matches the
  second pass sees are the plain links and those alias links whose key is not in the
  set, \<^verbatim>\<open>|\<close> included: the first pass consumes exactly the alias links whose key is in
  the set.
\<close>

theorem second_pass_matches:
  assumes "\<forall>p\<in>set ps. well_formed p"
  shows "plain_matches (alias_pass del K (render ps)) =
           concat (map (\<lambda>p. case p of
                          Prose s \<Rightarrow> []
                        | Link t \<Rightarrow> [bracketed t]
                        | AliasLink t d \<Rightarrow>
                            (if bracketed t \<in> K then [] else [bracketed (t @ CHR ''|'' # d)]))
                    ps)"
proof -
  have wf: "\<forall>p\<in>set (map (alias_rewrite del K) ps). well_formed p"
    using assms by (simp add: well_formed_alias_rewrite)
  have "alias_pass del K (render ps) = render (map (alias_rewrite del K) ps)"
    using alias_pass_render [OF assms, of del K "[]"] by simp
  then have "plain_matches (alias_pass del K (render ps)) =
      concat (map (\<lambda>p. case p of Prose s \<Rightarrow> [] | Link t \<Rightarrow> [bracketed t]
                         | AliasLink t d \<Rightarrow> [bracketed (t @ CHR ''|'' # d)])
                (map (alias_rewrite del K) ps))"
    using plain_matches_render [OF wf, of "[]"] by simp
  also have "\<dots> = concat (map (\<lambda>p. case p of
                          Prose s \<Rightarrow> []
                        | Link t \<Rightarrow> [bracketed t]
                        | AliasLink t d \<Rightarrow>
                            (if bracketed t \<in> K then [] else [bracketed (t @ CHR ''|'' # d)]))
                    ps)"
    by (induction ps) (auto split: piece.splits)
  finally show ?thesis .
qed

theorem second_pass_matches_witness:
  "list_all well_formed [Link ''a'', Prose '' '', AliasLink ''b'' ''c'', AliasLink ''d'' ''e'']
   \<and> alias_pass False {''[[b]]''} ''[[a]] [[b|c]][[d|e]]'' = ''[[a]] c[[d|e]]''
   \<and> plain_matches (alias_pass False {''[[b]]''} ''[[a]] [[b|c]][[d|e]]'') =
       [''[[a]]'', ''[[d|e]]'']"
proof -
  let ?ps = "[Link ''a'', Prose '' '', AliasLink ''b'' ''c'', AliasLink ''d'' ''e'']"
  have h: "\<forall>p\<in>set ?ps. well_formed p"
    by simp
  have r: "render ?ps = ''[[a]] [[b|c]][[d|e]]''"
    by (simp add: render_def bracketed_def)
  have a: "alias_pass False {''[[b]]''} ''[[a]] [[b|c]][[d|e]]'' = ''[[a]] c[[d|e]]''"
    by (simp add: rewriter_eval)
  from second_pass_matches [OF h, of False "{''[[b]]''}"]
  have "plain_matches (alias_pass False {''[[b]]''} ''[[a]] [[b|c]][[d|e]]'') =
       [''[[a]]'', ''[[d|e]]'']"
    unfolding r by (simp add: bracketed_def)
  with a show ?thesis
    unfolding list_all_iff using h by blast
qed

section \<open>The scan and its report\<close>

lemma slice_bracketed: "slice_2_m2 (bracketed x) = x"
  by (simp add: slice_2_m2_def bracketed_def)

lemma split_on_first:
  "\<exists>pieces. split_on sep s = takeWhile (\<lambda>c. c \<noteq> sep) s # pieces"
  by (induction s) (auto split: list.splits)

lemma before_pipe_eq: "before_pipe s = takeWhile (\<lambda>c. c \<noteq> CHR ''|'') s"
  using split_on_first [of "CHR ''|''" s] by (auto simp: before_pipe_def)

lemma set_trim: "set (trim s) \<subseteq> set s"
proof -
  have "set (dropWhile is_space (rev (dropWhile is_space s))) \<subseteq> set (rev (dropWhile is_space s))"
    by (rule set_dropWhileD [THEN subsetI])
  also have "\<dots> \<subseteq> set s"
    by (auto dest: set_dropWhileD)
  finally show ?thesis by (simp add: trim_def)
qed

lemma plain_matches_shape:
  "m \<in> set (plain_matches s) \<Longrightarrow>
     \<exists>inner. m = bracketed inner \<and> inner \<noteq> [] \<and> CHR '']'' \<notin> set inner"
proof (induction s rule: plain_matches.induct)
  case 1
  then show ?case by simp
next
  case (2 c cs)
  show ?case
  proof (cases "plain_at (c # cs)")
    case None
    with 2 show ?thesis by simp
  next
    case (Some r)
    then obtain t rest where p: "plain_at (c # cs) = Some (t, rest)"
      by (cases r) auto
    with "2.prems" have "m = bracketed t \<or> m \<in> set (plain_matches rest)"
      by simp
    then show ?thesis
      using plain_at_linkText [OF p] "2.IH"(2) [OF p] by blast
  qed
qed

lemma scan_linkText_chars:
  assumes "link \<in> set (plain_matches content)"
  shows "CHR '']'' \<notin> set (scan_linkText link)" and "CHR ''|'' \<notin> set (scan_linkText link)"
proof -
  from plain_matches_shape [OF assms] obtain inner where
    l: "link = bracketed inner" and n: "CHR '']'' \<notin> set inner"
    by blast
  have s: "set (scan_linkText link) \<subseteq> set (takeWhile (\<lambda>c. c \<noteq> CHR ''|'') inner)"
    using set_trim by (simp add: scan_linkText_def l slice_bracketed before_pipe_eq)
  from s n show "CHR '']'' \<notin> set (scan_linkText link)"
    by (auto dest: set_takeWhileD)
  from s show "CHR ''|'' \<notin> set (scan_linkText link)"
    by (auto dest: set_takeWhileD)
qed

lemma add_reference_keys:
  "fst ` set (add_reference k p m) = insert k (fst ` set m)"
  by (induction m) force+

lemma scan_links_keeps:
  "k \<in> fst ` set m \<Longrightarrow> k \<in> fst ` set (snd (scan_links res ex f links (n, m)))"
  by (induction links arbitrary: n m) (auto simp: Let_def add_reference_keys)

lemma scan_links_adds:
  assumes "l \<in> set links"
    and "res (scan_linkText l) (path f) = None" "scan_linkText l \<notin> ex"
    and "scan_linkText l @ ''.md'' \<notin> ex"
  shows "bracketed (scan_linkText l) \<in> fst ` set (snd (scan_links res ex f links (n, m)))"
  using assms(1)
proof (induction links arbitrary: n m)
  case Nil
  then show ?case by simp
next
  case (Cons x links)
  show ?case
  proof (cases "x = l")
    case True
    have "bracketed (scan_linkText l) \<in>
            fst ` set (add_reference (bracketed (scan_linkText l)) (path f) m)"
      by (simp add: add_reference_keys)
    from scan_links_keeps [OF this, of res ex f links "n + 1"] True assms(2-4)
    show ?thesis by (simp add: Let_def)
  next
    case False
    with Cons.prems have "l \<in> set links" by simp
    from Cons.IH [OF this] show ?thesis
      by (simp add: Let_def)
  qed
qed

lemma scan_files_keeps:
  assumes "scan_files res v ex fs acc = Inr acc'" and "k \<in> fst ` set (snd acc)"
  shows "k \<in> fst ` set (snd acc')"
  using assms
proof (induction fs arbitrary: acc)
  case Nil
  then show ?case by simp
next
  case (Cons f fs)
  from Cons.prems(1) obtain content where
    s: "scan_files res v ex fs (scan_links res ex f (plain_matches content) acc) = Inr acc'"
    by (auto split: sum.splits)
  have "k \<in> fst ` set (snd (scan_links res ex f (plain_matches content) acc))"
    using scan_links_keeps [OF Cons.prems(2), of res ex f "plain_matches content" "fst acc"]
    by simp
  from Cons.IH [OF s this] show ?case .
qed

lemma scan_files_adds:
  assumes "scan_files res v ex fs acc = Inr acc'"
    and "f \<in> set fs" "vault_read v (path f) = Inr content"
    and "l \<in> set (plain_matches content)"
    and "res (scan_linkText l) (path f) = None" "scan_linkText l \<notin> ex"
    and "scan_linkText l @ ''.md'' \<notin> ex"
  shows "bracketed (scan_linkText l) \<in> fst ` set (snd acc')"
  using assms(1,2)
proof (induction fs arbitrary: acc)
  case Nil
  then show ?case by simp
next
  case (Cons g fs)
  from Cons.prems(1) obtain c where r: "vault_read v (path g) = Inr c"
    and s: "scan_files res v ex fs (scan_links res ex g (plain_matches c) acc) = Inr acc'"
    by (auto split: sum.splits)
  show ?case
  proof (cases "g = f")
    case True
    with r assms(3) have "c = content" by simp
    with True have "bracketed (scan_linkText l) \<in>
        fst ` set (snd (scan_links res ex g (plain_matches c) acc))"
      using scan_links_adds [where l = l and links = "plain_matches content" and res = res
          and f = f and ex = ex and n = "fst acc" and m = "snd acc"] assms(4-7)
      by simp
    from scan_files_keeps [OF s this] show ?thesis .
  next
    case False
    with Cons.prems(2) have "f \<in> set fs" by simp
    from Cons.IH [OF s this] show ?thesis .
  qed
qed

lemma report_line_last: "report_line e \<noteq> [] \<and> last (report_line e) = CHR 0x0A"
  by (cases e) (simp add: report_line_def)

lemma report_lines_last:
  "concat (map report_line m) = [] \<or> last (concat (map report_line m)) = CHR 0x0A"
proof (induction m rule: rev_induct)
  case Nil
  then show ?case by simp
next
  case (snoc e m)
  then show ?case using report_line_last [of e] by simp
qed

lemma report_has_line:
  assumes "(k, ps) \<in> set m"
  shows "\<exists>H R. report_content now n m = H @ CHR 0x0A # (''- '' @ k) @ R"
proof -
  from assms obtain m1 m2 where m: "m = m1 @ (k, ps) # m2"
    by (auto simp: in_set_conv_decomp)
  let ?head = "''# Broken links report'' @ [CHR 0x0A, CHR 0x0A] @
     ''Generated: '' @ now @ [CHR 0x0A] @
     ''Total broken links: '' @ show_nat (length m) @ [CHR 0x0A] @
     ''Total links checked: '' @ show_nat n @ [CHR 0x0A, CHR 0x0A] @
     ''## Broken links:'' @ [CHR 0x0A]"
  let ?A = "concat (map report_line m1)"
  have "(?head @ [CHR 0x0A]) @ ?A \<noteq> [] \<and> last ((?head @ [CHR 0x0A]) @ ?A) = CHR 0x0A"
    using report_lines_last [of m1] by auto
  then obtain H where H: "(?head @ [CHR 0x0A]) @ ?A = H @ [CHR 0x0A]"
    by (metis append_butlast_last_id)
  have "report_content now n m =
          ((?head @ [CHR 0x0A]) @ ?A) @ report_line (k, ps) @ concat (map report_line m2)"
    by (simp add: report_content_def m)
  also have "\<dots> = H @ CHR 0x0A # (''- '' @ k) @
      ('' in '' @ join '', '' (map bracketed ps) @ [CHR 0x0A] @ concat (map report_line m2))"
    unfolding H by (simp add: report_line_def)
  finally show ?thesis by blast
qed

lemma split_on_first_line:
  assumes "sep \<notin> set x"
  shows "\<exists>r ls. split_on sep (x @ R) = (x @ r) # ls"
  using assms
proof (induction x)
  case Nil
  then show ?case using split_on_first [of sep R] by auto
next
  case (Cons c x)
  then obtain r ls where "split_on sep (x @ R) = (x @ r) # ls"
    by auto
  with Cons.prems show ?case by auto
qed

lemma report_line_loaded:
  assumes "(bracketed t, ps) \<in> set m"
    and "t \<noteq> []" "CHR '']'' \<notin> set t" "CHR 0x0A \<notin> set t"
  shows "bracketed t \<in>
           set (List.map_filter line_key (split_on (CHR 0x0A) (report_content now n m)))"
proof -
  from report_has_line [OF assms(1)] obtain H R where
    r: "report_content now n m = H @ CHR 0x0A # (''- '' @ bracketed t) @ R"
    by blast
  have "CHR 0x0A \<notin> set (''- '' @ bracketed t)"
    using assms(4) by (simp add: bracketed_def)
  from split_on_first_line [OF this, of R] obtain r' ls where
    s: "split_on (CHR 0x0A) ((''- '' @ bracketed t) @ R) = ((''- '' @ bracketed t) @ r') # ls"
    by blast
  have "''- '' @ bracketed t @ r' \<in> set (split_on (CHR 0x0A) (report_content now n m))"
    unfolding r split_on_append using s by simp
  moreover have "line_key (''- '' @ bracketed t @ r') = Some (bracketed t)"
    by (rule line_key_shape_Some) (use assms in \<open>simp_all add: space_or_dash_def is_space_def\<close>)
  ultimately show ?thesis
    unfolding set_map_filter by blast
qed

lemma scan_writes_report:
  assumes "scanAndGenerateBrokenLinks res now st v = Inr v'"
    and "scan_files res v (existingFiles (getMarkdownFiles v)) (getMarkdownFiles v) (0, []) =
           Inr (n, m)"
    and "m \<noteq> []" and "brokenLinksFile st \<notin> read_rejects v"
  shows "vault_read v' (brokenLinksFile st) = Inr (report_content now n m)"
  using assms
  by (auto simp: scanAndGenerateBrokenLinks_def Let_def vault_modify_def vault_create_def
      vault_read_def split: if_splits)


lemma scan_linkText_forms:
  assumes "CHR ''|'' \<notin> set t"
  shows "scan_linkText (bracketed t) = trim t"
    and "scan_linkText (bracketed (t @ CHR ''|'' # d)) = trim t"
proof -
  have 1: "takeWhile (\<lambda>c. c \<noteq> CHR ''|'') t = t"
    using assms by (auto simp: takeWhile_eq_all_conv)
  show "scan_linkText (bracketed t) = trim t"
    by (simp only: scan_linkText_def slice_bracketed before_pipe_eq 1)
  have 2: "takeWhile (\<lambda>c. c \<noteq> CHR ''|'') (t @ CHR ''|'' # d) = t"
    using assms by (intro takeWhile_run) auto
  show "scan_linkText (bracketed (t @ CHR ''|'' # d)) = trim t"
    by (simp only: scan_linkText_def slice_bracketed before_pipe_eq 2)
qed

lemmas scan_eval = scanAndGenerateBrokenLinks_def existingFiles_def
  vault_create_def vault_modify_def scan_linkText_def slice_2_m2_def before_pipe_def
  report_content_def report_line_def show_nat.simps Let_def

lemma clean_prose:
  "plain_prose s \<Longrightarrow> cleanBrokenWikilinks st s K = s"
  using alias_pass_prose [of s "deleteText st" K "[]"]
    plain_pass_prose [of s "deleteText st" K "[]"]
  by (simp add: cleanBrokenWikilinks_def)

section \<open>From the scan to the Rewriter: claim C3\<close>

text \<open>
  C3. The scan trims the target when it forms the key (line 309); the Rewriter asks the
  registry for the occurrence as it is written (lines 141 and 150). An occurrence
  written with padding is reported by the scan, its key is in the registry loaded from
  the report, and \<^verbatim>\<open>cleanBrokenWikilinks\<close> with that registry leaves it as it is.
  An alias link with an empty display text gets the key of its target from the scan and
  is left as it is as well.
\<close>

theorem padded_occurrence_not_cleaned:
  "(\<exists>v'. scanAndGenerateBrokenLinks (\<lambda>linkpath sourcePath. None) ''3/11/2026''
            DEFAULT_SETTINGS
            \<lparr>getMarkdownFiles = [\<lparr>path = ''a.md'', basename = ''a'', name = ''a.md''\<rparr>],
             stored = [''a.md'' \<mapsto> ''see [[ Gone ]]''],
             read_rejects = {}, modify_rejects = {}, writes = []\<rparr> = Inr v' \<and>
          loadBrokenLinks DEFAULT_SETTINGS v' = Inr {''[[Gone]]''}) \<and>
   cleanBrokenWikilinks DEFAULT_SETTINGS ''see [[ Gone ]]'' {''[[Gone]]''} =
     ''see [[ Gone ]]'' \<and>
   scan_linkText ''[[Gone|]]'' = ''Gone'' \<and>
   cleanBrokenWikilinks DEFAULT_SETTINGS ''[[Gone|]]'' {''[[Gone]]''} = ''[[Gone|]]''"
  by (simp add: scan_eval loader_eval rewriter_eval)

text \<open>
  What does hold from the scan to the Rewriter. The scan forms the key from the target
  alone: \<^verbatim>\<open>[[t]]\<close> and \<^verbatim>\<open>[[t|d]]\<close> both give \<^verbatim>\<open>[[trim(t)]]\<close>. When the scan has
  written its report and the registry file can be read, every occurrence it found
  broken whose trimmed target is not empty and holds no line feed has its key in the
  registry loaded from that report; and with that registry the Rewriter rewrites, after
  any text made of well-formed pieces, the plain link written with exactly that trimmed
  target, and the alias link written with it and a display text \<open>b\<close> that is not empty
  and holds no \<^verbatim>\<open>]\<close> (where \<open>b\<close> is kept: \<open>b\<close> holds no \<^verbatim>\<open>[[\<close> and does not end in
  \<^verbatim>\<open>[\<close>, or the text after holds no \<^verbatim>\<open>]\<close>).
\<close>

theorem registry_entry_cleans_target:
  assumes "scanAndGenerateBrokenLinks res now st v = Inr v'"
    and "brokenLinksFile st \<notin> read_rejects v"
    and "f \<in> set (getMarkdownFiles v)" and "vault_read v (path f) = Inr content"
    and "link \<in> set (plain_matches content)"
    and "res (scan_linkText link) (path f) = None"
    and "scan_linkText link \<notin> existingFiles (getMarkdownFiles v)"
    and "scan_linkText link @ ''.md'' \<notin> existingFiles (getMarkdownFiles v)"
    and "scan_linkText link \<noteq> []" and "CHR 0x0A \<notin> set (scan_linkText link)"
  shows "(\<forall>t d. CHR ''|'' \<notin> set t \<longrightarrow>
            scan_linkText (bracketed t) = trim t \<and>
            scan_linkText (bracketed (t @ CHR ''|'' # d)) = trim t) \<and>
         (\<exists>K. loadBrokenLinks st v' = Inr K \<and> bracketed (scan_linkText link) \<in> K \<and>
            (\<forall>before post b. (\<forall>p\<in>set before. well_formed p) \<longrightarrow>
               cleanBrokenWikilinks st
                 (render before @ bracketed (scan_linkText link) @ post) K =
                 cleanBrokenWikilinks st (render before) K @
                 (if deleteText st then [] else scan_linkText link) @
                 cleanBrokenWikilinks st post K \<and>
               (b \<noteq> [] \<and> CHR '']'' \<notin> set b \<and>
                (deleteText st \<or> plain_prose b \<or> CHR '']'' \<notin> set post) \<longrightarrow>
                cleanBrokenWikilinks st
                  (render before @ bracketed (scan_linkText link @ CHR ''|'' # b) @ post) K =
                  cleanBrokenWikilinks st (render before) K @
                  (if deleteText st then [] else b) @
                  cleanBrokenWikilinks st post K)))"
proof (intro conjI allI impI)
  fix t d assume "CHR ''|'' \<notin> set t"
  then show "scan_linkText (bracketed t) = trim t"
    and "scan_linkText (bracketed (t @ CHR ''|'' # d)) = trim t"
    by (rule scan_linkText_forms)+
next
  let ?t = "scan_linkText link"
  from assms(1) obtain n m where
    s: "scan_files res v (existingFiles (getMarkdownFiles v)) (getMarkdownFiles v) (0, []) =
          Inr (n, m)"
    by (auto simp: scanAndGenerateBrokenLinks_def Let_def split: sum.splits)
  from scan_files_adds [OF s assms(3-8)] obtain ps where k: "(bracketed ?t, ps) \<in> set m"
    by auto
  then have "m \<noteq> []" by auto
  from scan_writes_report [OF assms(1) s this assms(2)]
  have r: "vault_read v' (brokenLinksFile st) = Inr (report_content now n m)" .
  note c = scan_linkText_chars [OF assms(5)]
  let ?K = "set (List.map_filter line_key (split_on (CHR 0x0A) (report_content now n m)))"
  have l: "loadBrokenLinks st v' = Inr ?K"
    by (rule loadBrokenLinks_read(1) [OF r])
  have i: "bracketed ?t \<in> ?K"
    by (rule report_line_loaded [OF k assms(9) c(1) assms(10)])
  have "\<forall>before post b. (\<forall>p\<in>set before. well_formed p) \<longrightarrow>
               cleanBrokenWikilinks st (render before @ bracketed ?t @ post) ?K =
                 cleanBrokenWikilinks st (render before) ?K @
                 (if deleteText st then [] else ?t) @
                 cleanBrokenWikilinks st post ?K \<and>
               (b \<noteq> [] \<and> CHR '']'' \<notin> set b \<and>
                (deleteText st \<or> plain_prose b \<or> CHR '']'' \<notin> set post) \<longrightarrow>
                cleanBrokenWikilinks st
                  (render before @ bracketed (?t @ CHR ''|'' # b) @ post) ?K =
                  cleanBrokenWikilinks st (render before) ?K @
                  (if deleteText st then [] else b) @
                  cleanBrokenWikilinks st post ?K)"
  proof (intro allI impI conjI)
    fix before :: "piece list" and post :: string
    assume wf: "\<forall>p\<in>set before. well_formed p"
    show "cleanBrokenWikilinks st (render before @ bracketed ?t @ post) ?K =
                 cleanBrokenWikilinks st (render before) ?K @
                 (if deleteText st then [] else ?t) @
                 cleanBrokenWikilinks st post ?K"
      using clean_plain_occurrence [OF wf assms(9) c, of st post ?K] i by simp
  next
    fix before :: "piece list" and post b :: string
    assume wf: "\<forall>p\<in>set before. well_formed p"
      and b: "b \<noteq> [] \<and> CHR '']'' \<notin> set b \<and>
                (deleteText st \<or> plain_prose b \<or> CHR '']'' \<notin> set post)"
    from b have b1: "b \<noteq> []" and b2: "CHR '']'' \<notin> set b"
      and b3: "deleteText st \<or> plain_prose b \<or> CHR '']'' \<notin> set post"
      by auto
    show "cleanBrokenWikilinks st
                  (render before @ bracketed (?t @ CHR ''|'' # b) @ post) ?K =
                  cleanBrokenWikilinks st (render before) ?K @
                  (if deleteText st then [] else b) @
                  cleanBrokenWikilinks st post ?K"
      by (rule clean_alias_occurrence_broken [OF wf assms(9) c b1 b2 i b3])
  qed
  with l i show "\<exists>K. loadBrokenLinks st v' = Inr K \<and> bracketed ?t \<in> K \<and>
            (\<forall>before post b. (\<forall>p\<in>set before. well_formed p) \<longrightarrow>
               cleanBrokenWikilinks st (render before @ bracketed ?t @ post) K =
                 cleanBrokenWikilinks st (render before) K @
                 (if deleteText st then [] else ?t) @
                 cleanBrokenWikilinks st post K \<and>
               (b \<noteq> [] \<and> CHR '']'' \<notin> set b \<and>
                (deleteText st \<or> plain_prose b \<or> CHR '']'' \<notin> set post) \<longrightarrow>
                cleanBrokenWikilinks st
                  (render before @ bracketed (?t @ CHR ''|'' # b) @ post) K =
                  cleanBrokenWikilinks st (render before) K @
                  (if deleteText st then [] else b) @
                  cleanBrokenWikilinks st post K))"
    by blast
qed


theorem registry_entry_cleans_target_witness:
  "\<exists>v' K.
     scanAndGenerateBrokenLinks (\<lambda>linkpath sourcePath. None) ''3/11/2026'' DEFAULT_SETTINGS
       \<lparr>getMarkdownFiles = [\<lparr>path = ''a.md'', basename = ''a'', name = ''a.md''\<rparr>],
        stored = [''a.md'' \<mapsto> ''see [[Gone]] and [[ Gone |it]]''],
        read_rejects = {}, modify_rejects = {}, writes = []\<rparr> = Inr v' \<and>
     ''[[Gone]]'' \<in> set (plain_matches ''see [[Gone]] and [[ Gone |it]]'') \<and>
     scan_linkText ''[[Gone]]'' = ''Gone'' \<and>
     ''Gone'' \<notin> existingFiles [\<lparr>path = ''a.md'', basename = ''a'', name = ''a.md''\<rparr>] \<and>
     ''Gone.md'' \<notin> existingFiles [\<lparr>path = ''a.md'', basename = ''a'', name = ''a.md''\<rparr>] \<and>
     loadBrokenLinks DEFAULT_SETTINGS v' = Inr K \<and> ''[[Gone]]'' \<in> K \<and>
     cleanBrokenWikilinks DEFAULT_SETTINGS ''see [[Gone]]'' K = ''see Gone'' \<and>
     cleanBrokenWikilinks DEFAULT_SETTINGS ''see [[Gone|it]]'' K = ''see it''"
proof -
  let ?f = "\<lparr>path = ''a.md'', basename = ''a'', name = ''a.md''\<rparr>"
  let ?c = "''see [[Gone]] and [[ Gone |it]]''"
  let ?v = "\<lparr>getMarkdownFiles = [?f], stored = [''a.md'' \<mapsto> ?c],
             read_rejects = {}, modify_rejects = {}, writes = []\<rparr>"
  let ?res = "\<lambda>linkpath sourcePath :: string. None :: TFile option"
  have "\<exists>v'. scanAndGenerateBrokenLinks ?res ''3/11/2026'' DEFAULT_SETTINGS ?v = Inr v'"
    by (simp add: scan_eval loader_eval)
  then obtain v' where
    h1: "scanAndGenerateBrokenLinks ?res ''3/11/2026'' DEFAULT_SETTINGS ?v = Inr v'" ..
  have h2: "brokenLinksFile DEFAULT_SETTINGS \<notin> read_rejects ?v"
    by simp
  have h3: "?f \<in> set (getMarkdownFiles ?v)"
    by simp
  have h4: "vault_read ?v (path ?f) = Inr ?c"
    by (simp add: vault_read_def)
  have h5: "''[[Gone]]'' \<in> set (plain_matches ?c)"
    by (simp add: rewriter_eval)
  have t: "scan_linkText ''[[Gone]]'' = ''Gone''"
    by (simp add: scan_eval trim_def is_space_def)
  have h6: "?res (scan_linkText ''[[Gone]]'') (path ?f) = None"
    by simp
  have e1: "''Gone'' \<notin> existingFiles [?f]" and e2: "''Gone.md'' \<notin> existingFiles [?f]"
    by (simp_all add: existingFiles_def)
  have h7: "scan_linkText ''[[Gone]]'' \<notin> existingFiles (getMarkdownFiles ?v)"
    and h8: "scan_linkText ''[[Gone]]'' @ ''.md'' \<notin> existingFiles (getMarkdownFiles ?v)"
    using e1 e2 by (simp_all add: t)
  have h9: "scan_linkText ''[[Gone]]'' \<noteq> []"
    and h10: "CHR 0x0A \<notin> set (scan_linkText ''[[Gone]]'')"
    by (simp_all add: t)
  from registry_entry_cleans_target [OF h1 h2 h3 h4 h5 h6 h7 h8 h9 h10]
  obtain K where l: "loadBrokenLinks DEFAULT_SETTINGS v' = Inr K"
    and i: "bracketed (scan_linkText ''[[Gone]]'') \<in> K"
    and r: "\<forall>before post b. (\<forall>p\<in>set before. well_formed p) \<longrightarrow>
               cleanBrokenWikilinks DEFAULT_SETTINGS
                 (render before @ bracketed (scan_linkText ''[[Gone]]'') @ post) K =
                 cleanBrokenWikilinks DEFAULT_SETTINGS (render before) K @
                 (if deleteText DEFAULT_SETTINGS then [] else scan_linkText ''[[Gone]]'') @
                 cleanBrokenWikilinks DEFAULT_SETTINGS post K \<and>
               (b \<noteq> [] \<and> CHR '']'' \<notin> set b \<and>
                (deleteText DEFAULT_SETTINGS \<or> plain_prose b \<or> CHR '']'' \<notin> set post) \<longrightarrow>
                cleanBrokenWikilinks DEFAULT_SETTINGS
                  (render before @ bracketed (scan_linkText ''[[Gone]]'' @ CHR ''|'' # b) @ post)
                  K =
                  cleanBrokenWikilinks DEFAULT_SETTINGS (render before) K @
                  (if deleteText DEFAULT_SETTINGS then [] else b) @
                  cleanBrokenWikilinks DEFAULT_SETTINGS post K)"
    by blast
  have p: "cleanBrokenWikilinks DEFAULT_SETTINGS ''see '' K = ''see ''"
    by (rule clean_prose) simp
  from r [rule_format, of "[Prose ''see '']" "[]" "''it''"] p
  have c1: "cleanBrokenWikilinks DEFAULT_SETTINGS ''see [[Gone]]'' K = ''see Gone''"
    and c2: "cleanBrokenWikilinks DEFAULT_SETTINGS ''see [[Gone|it]]'' K = ''see it''"
    by (simp_all add: t render_def bracketed_def clean_empty DEFAULT_SETTINGS_def)
  from i have i': "''[[Gone]]'' \<in> K"
    by (simp add: t bracketed_def)
  from h1 h5 t e1 e2 l i' c1 c2 show ?thesis
    by blast
qed

end
